theory Spec2Isabelle
  imports Main "HOL-Library.Word" "HOL-Library.Signed_Division"
begin

unbundle bit_operations_syntax

section \<open>The safepoint table of \<^verbatim>\<open>src/codegen/safepoint-table.cc\<close>\<close>

text \<open>
  The C++ \<^verbatim>\<open>int\<close> values of the builder (pc offsets, deoptimization indexes,
  trampolines, stack-slot indexes, the register mask as \<^verbatim>\<open>Emit\<close> reads it) are
  modelled as \<^typ>\<open>int\<close>; bytes are \<^typ>\<open>8 word\<close> and the configuration word is a
  \<^typ>\<open>32 word\<close>.  The functions are those of a release build: a \<^verbatim>\<open>DCHECK\<close> is
  not executed there.  The checks of the \<^verbatim>\<open>DEBUG\<close> block of \<^verbatim>\<open>Emit\<close> are the
  predicate \<open>Emit_DCHECKs\<close>.  A \<^verbatim>\<open>CHECK\<close> and \<^verbatim>\<open>UNREACHABLE()\<close> are fatal in
  every build and are error values of the model, as is a write outside the
  bitmap vector (undefined in C++).  Where a theorem depends on the values being
  32-bit \<^verbatim>\<open>int\<close>s whose sums do not overflow, it assumes \<open>int_ranges\<close>.  The header
  \<^verbatim>\<open>safepoint-table.h\<close> is not among the sources: what it declares (the bit fields
  of the configuration word, \<^verbatim>\<open>GetEntry\<close>) is modelled from the specification and
  marked so.
\<close>

type_synonym byte = "8 word"

datatype error = CheckFailed | Unreachable | OutOfBounds

subsection \<open>Builder entries\<close>

text \<open>\<^verbatim>\<open>SafepointEntry::kNoDeoptIndex\<close> and \<^verbatim>\<open>kNoTrampolinePC\<close>, both \<open>-1\<close> by the
  \<^verbatim>\<open>STATIC_ASSERT\<close>s of \<^verbatim>\<open>Emit\<close>.\<close>

definition kNoDeoptIndex :: int where
  "kNoDeoptIndex = -1"

definition kNoTrampolinePC :: int where
  "kNoTrampolinePC = -1"

definition kBitsPerByte :: int where
  "kBitsPerByte = 8"

definition kBitsPerByteLog2 :: nat where
  "kBitsPerByteLog2 = 3"

text \<open>\<^verbatim>\<open>EntryBuilder\<close>: \<open>stack_indexes\<close> is the \<^verbatim>\<open>ZoneChunkList<int>\<close> in the order
  of registration, duplicates kept.\<close>

record EntryBuilder =
  pc :: int
  deopt_index :: int
  trampoline :: int
  stack_indexes :: "int list"
  register_indexes :: int

text \<open>\<^verbatim>\<open>DefineSafepoint\<close>: a new entry at the end, with no deopt data, no register
  and no stack slot.\<close>

definition new_entry :: "int \<Rightarrow> EntryBuilder" where
  "new_entry pc_offset =
     \<lparr>pc = pc_offset, deopt_index = kNoDeoptIndex, trampoline = kNoTrampolinePC,
      stack_indexes = [], register_indexes = 0\<rparr>"

definition DefineSafepoint :: "EntryBuilder list \<Rightarrow> int \<Rightarrow> EntryBuilder list" where
  "DefineSafepoint entries pc_offset = entries @ [new_entry pc_offset]"

text \<open>\<^verbatim>\<open>while (it->pc != pc) ++it, ++index\<close> from \<^verbatim>\<open>entries_.Find(start)\<close>; running
  past the last entry is undefined in C++ (a \<^verbatim>\<open>DCHECK\<close> in a debug build): \<open>None\<close>.\<close>

fun find_pc :: "EntryBuilder list \<Rightarrow> int \<Rightarrow> int \<Rightarrow> int option" where
  "find_pc [] pc' index = None"
| "find_pc (e # es) pc' index =
     (if pc e \<noteq> pc' then find_pc es pc' (index + 1) else Some index)"

text \<open>\<^verbatim>\<open>UpdateDeoptimizationInfo\<close>: the entries after the call and the index returned
  (\<^verbatim>\<open>Find\<close> of a negative index is outside the list as well).\<close>

definition UpdateDeoptimizationInfo ::
  "EntryBuilder list \<Rightarrow> int \<Rightarrow> int \<Rightarrow> int \<Rightarrow> int \<Rightarrow> error + EntryBuilder list \<times> int" where
  "UpdateDeoptimizationInfo entries pc' trampoline' start deopt_index' =
     (if start < 0 then Inl OutOfBounds
      else case find_pc (drop (nat start) entries) pc' start of
        None \<Rightarrow> Inl OutOfBounds
      | Some index \<Rightarrow>
          Inr (entries[nat index :=
                 (entries ! nat index)\<lparr>trampoline := trampoline', deopt_index := deopt_index'\<rparr>],
               index))"

subsection \<open>\<^verbatim>\<open>RemoveDuplicates\<close>\<close>

definition is_identical_except_for_pc :: "EntryBuilder \<Rightarrow> EntryBuilder \<Rightarrow> bool" where
  "is_identical_except_for_pc entry1 entry2 =
     (if deopt_index entry1 \<noteq> deopt_index entry2 then False
      else if length (stack_indexes entry1) \<noteq> length (stack_indexes entry2) then False
      else if \<not> list_all2 (=) (stack_indexes entry1) (stack_indexes entry2) then False
      else if register_indexes entry1 \<noteq> register_indexes entry2 then False
      else True)"

text \<open>The inner \<^verbatim>\<open>do ++it while (it != end && is_identical_except_for_pc(*it, *remaining_it))\<close>,
  after its first \<^verbatim>\<open>++it\<close>: the entries from \<^verbatim>\<open>it\<close> on that are left.\<close>

fun skip_identical :: "EntryBuilder \<Rightarrow> EntryBuilder list \<Rightarrow> EntryBuilder list" where
  "skip_identical r [] = []"
| "skip_identical r (e # es) =
     (if is_identical_except_for_pc e r then skip_identical r es else e # es)"

text \<open>The outer loop: the entry at \<^verbatim>\<open>it\<close> is kept (copied to \<^verbatim>\<open>remaining_it\<close>), the
  entries identical to it are skipped.\<close>

function remove_duplicates_loop :: "EntryBuilder list \<Rightarrow> EntryBuilder list" where
  "remove_duplicates_loop [] = []"
| "remove_duplicates_loop (e # es) = e # remove_duplicates_loop (skip_identical e es)"
  by pat_completeness auto
termination
proof (relation "measure length")
  show "wf (measure length)"
    by simp
next
  fix e :: EntryBuilder and es :: "EntryBuilder list"
  have "length (skip_identical e es) \<le> length es"
    by (induction es) auto
  then show "(skip_identical e es, e # es) \<in> measure length"
    by simp
qed

definition RemoveDuplicates :: "EntryBuilder list \<Rightarrow> EntryBuilder list" where
  "RemoveDuplicates entries =
     (if length entries < 2 then entries else remove_duplicates_loop entries)"

subsection \<open>\<^verbatim>\<open>TrimEntries\<close>\<close>

text \<open>The first loop of \<^verbatim>\<open>TrimEntries\<close>; \<open>None\<close> is its early \<^verbatim>\<open>return\<close>.\<close>

fun trim_scan_indexes :: "int \<Rightarrow> int list \<Rightarrow> int option" where
  "trim_scan_indexes min_index [] = Some min_index"
| "trim_scan_indexes min_index (idx # idxs) =
     (if idx \<ge> min_index then trim_scan_indexes min_index idxs
      else if idx = 0 then None
      else trim_scan_indexes idx idxs)"

fun trim_scan :: "int \<Rightarrow> EntryBuilder list \<Rightarrow> int option" where
  "trim_scan min_index [] = Some min_index"
| "trim_scan min_index (e # es) =
     (case trim_scan_indexes min_index (stack_indexes e) of
        None \<Rightarrow> None
      | Some m \<Rightarrow> trim_scan m es)"

definition shift_indexes :: "int \<Rightarrow> EntryBuilder \<Rightarrow> EntryBuilder" where
  "shift_indexes min_index e =
     e\<lparr>stack_indexes := map (\<lambda>idx. idx - min_index) (stack_indexes e)\<rparr>"

text \<open>The entries and \<^verbatim>\<open>*tagged_slots_size\<close> after the call.\<close>

definition TrimEntries :: "EntryBuilder list \<Rightarrow> int \<Rightarrow> EntryBuilder list \<times> int" where
  "TrimEntries entries tagged_slots_size =
     (if tagged_slots_size = 0 then (entries, tagged_slots_size)
      else case trim_scan tagged_slots_size entries of
             None \<Rightarrow> (entries, tagged_slots_size)
           | Some min_index \<Rightarrow>
               (map (shift_indexes min_index) entries, tagged_slots_size - min_index))"

subsection \<open>The configuration word\<close>

text \<open>Modelled from the spec: \<^verbatim>\<open>base::BitField\<close> (its header is not part of the
  sources): a field of \<open>kSize\<close> bits at bit \<open>kShift\<close> of the 32-bit configuration
  word; a value is valid when it fits the bits allotted to the field.\<close>

record BitField =
  kShift :: nat
  kSize :: nat

definition is_valid :: "BitField \<Rightarrow> int \<Rightarrow> bool" where
  "is_valid f v = (0 \<le> v \<and> v < 2 ^ kSize f)"

definition encode :: "BitField \<Rightarrow> int \<Rightarrow> 32 word" where
  "encode f v = push_bit (kShift f) (word_of_int v)"

definition decode :: "BitField \<Rightarrow> 32 word \<Rightarrow> int" where
  "decode f w = uint (take_bit (kSize f) (drop_bit (kShift f) w))"

definition Next :: "BitField \<Rightarrow> nat \<Rightarrow> BitField" where
  "Next f n = \<lparr>kShift = kShift f + kSize f, kSize = n\<rparr>"

text \<open>Modelled from the spec: the bit ranges A to E of the configuration word
  (declared in \<^verbatim>\<open>safepoint-table.h\<close>, which is not part of the sources), one after
  the other from bit 0.  The number of bits of the ranges B to E is a parameter of
  the model.\<close>

record layout =
  register_indexes_size_bits :: nat
  pc_size_bits :: nat
  deopt_index_size_bits :: nat
  tagged_slots_bytes_bits :: nat

definition HasDeoptDataField :: BitField where
  "HasDeoptDataField = \<lparr>kShift = 0, kSize = 1\<rparr>"

definition RegisterIndexesSizeField :: "layout \<Rightarrow> BitField" where
  "RegisterIndexesSizeField L = Next HasDeoptDataField (register_indexes_size_bits L)"

definition PcSizeField :: "layout \<Rightarrow> BitField" where
  "PcSizeField L = Next (RegisterIndexesSizeField L) (pc_size_bits L)"

definition DeoptIndexSizeField :: "layout \<Rightarrow> BitField" where
  "DeoptIndexSizeField L = Next (PcSizeField L) (deopt_index_size_bits L)"

definition TaggedSlotsBytesField :: "layout \<Rightarrow> BitField" where
  "TaggedSlotsBytesField L = Next (DeoptIndexSizeField L) (tagged_slots_bytes_bits L)"

text \<open>The five ranges lie within the 32 bits of the word.\<close>

definition layout_ok :: "layout \<Rightarrow> bool" where
  "layout_ok L =
     (1 + register_indexes_size_bits L + pc_size_bits L + deopt_index_size_bits L
        + tagged_slots_bytes_bits L \<le> 32)"

text \<open>Modelled from the spec: the widths of section 6 (1, 2, 2 and 2 bits); the
  bitmap byte count takes the 25 bits that are left of the word.\<close>

definition spec_layout :: layout where
  "spec_layout =
     \<lparr>register_indexes_size_bits = 2, pc_size_bits = 2, deopt_index_size_bits = 2,
      tagged_slots_bytes_bits = 25\<rparr>"

subsection \<open>\<^verbatim>\<open>Emit\<close>\<close>

text \<open>Modelled from the spec: \<^verbatim>\<open>Assembler::db\<close> appends one byte and
  \<^verbatim>\<open>Assembler::dd\<close> the four bytes of a 32-bit value, little-endian.  The model
  of \<^verbatim>\<open>Emit\<close> returns the bytes it hands to the assembler from \<^verbatim>\<open>offset_\<close> on,
  that is after the alignment padding.\<close>

definition db :: "int \<Rightarrow> byte list" where
  "db v = [word_of_int v]"

definition dd :: "32 word \<Rightarrow> byte list" where
  "dd w = [ucast w, ucast (drop_bit 8 w), ucast (drop_bit 16 w), ucast (drop_bit 24 w)]"

definition value_to_bytes :: "int \<Rightarrow> int" where
  "value_to_bytes v =
     (if v = 0 then 0
      else if v \<le> 0xff then 1
      else if v \<le> 0xffff then 2
      else if v \<le> 0xffffff then 3
      else 4)"

text \<open>\<^verbatim>\<open>for (; bytes > 0; --bytes, value >>= 8) assembler->db(value)\<close>\<close>

function emit_bytes :: "int \<Rightarrow> int \<Rightarrow> byte list" where
  "emit_bytes v bytes =
     (if bytes > 0 then db v @ emit_bytes (drop_bit 8 v) (bytes - 1) else [])"
  by pat_completeness auto
termination
  by (relation "measure (\<lambda>(v, bytes). nat bytes)") auto

declare emit_bytes.simps [simp del]

text \<open>The three values the first loop of \<^verbatim>\<open>Emit\<close> accumulates.\<close>

definition used_register_indexes :: "EntryBuilder list \<Rightarrow> int" where
  "used_register_indexes entries = foldl (\<lambda>u e. u OR register_indexes e) 0 entries"

definition max_pc :: "EntryBuilder list \<Rightarrow> int" where
  "max_pc entries = foldl (\<lambda>m e. max m (max (pc e) (trampoline e))) (- 1) entries"

definition max_deopt_index :: "EntryBuilder list \<Rightarrow> int" where
  "max_deopt_index entries = foldl (\<lambda>m e. max m (deopt_index e)) (- 1) entries"

text \<open>The derived configuration: \<^verbatim>\<open>has_deopt_data\<close> and the four sizes.\<close>

record configuration =
  has_deopt_data :: bool
  register_indexes_size :: int
  pc_size :: int
  deopt_index_size :: int
  tagged_slots_bytes :: int

definition derive_configuration :: "EntryBuilder list \<Rightarrow> int \<Rightarrow> configuration" where
  "derive_configuration entries tagged_slots_size =
     \<lparr>has_deopt_data = (max_deopt_index entries \<noteq> - 1),
      register_indexes_size = value_to_bytes (used_register_indexes entries),
      pc_size = value_to_bytes (max_pc entries + 1),
      deopt_index_size = value_to_bytes (max_deopt_index entries + 1),
      tagged_slots_bytes = (tagged_slots_size + kBitsPerByte - 1) sdiv kBitsPerByte\<rparr>"

definition configuration_valid :: "layout \<Rightarrow> configuration \<Rightarrow> bool" where
  "configuration_valid L c =
     (is_valid (RegisterIndexesSizeField L) (register_indexes_size c) \<and>
      is_valid (PcSizeField L) (pc_size c) \<and>
      is_valid (DeoptIndexSizeField L) (deopt_index_size c) \<and>
      is_valid (TaggedSlotsBytesField L) (tagged_slots_bytes c))"

definition entry_configuration :: "layout \<Rightarrow> configuration \<Rightarrow> 32 word" where
  "entry_configuration L c =
     encode HasDeoptDataField (if has_deopt_data c then 1 else 0) OR
     encode (RegisterIndexesSizeField L) (register_indexes_size c) OR
     encode (PcSizeField L) (pc_size c) OR
     encode (DeoptIndexSizeField L) (deopt_index_size c) OR
     encode (TaggedSlotsBytesField L) (tagged_slots_bytes c)"

text \<open>The body of the loop that emits the entries.\<close>

definition emit_entry :: "configuration \<Rightarrow> EntryBuilder \<Rightarrow> byte list" where
  "emit_entry c entry =
     emit_bytes (pc entry) (pc_size c) @
     (if has_deopt_data c
      then emit_bytes (deopt_index entry + 1) (deopt_index_size c) @
           emit_bytes (trampoline entry + 1) (pc_size c)
      else []) @
     emit_bytes (register_indexes entry) (register_indexes_size c)"

text \<open>The loop over the indexes of one entry.  \<^verbatim>\<open>bits[byte_index]\<close> outside the
  vector is undefined in C++ (in a debug build \<^verbatim>\<open>DCHECK_GT(tagged_slots_size, idx)\<close>
  is fatal before it for an index that is too large): the model stops with
  \<open>OutOfBounds\<close>.\<close>

fun build_bitmap :: "int \<Rightarrow> byte list \<Rightarrow> int list \<Rightarrow> error + byte list" where
  "build_bitmap tagged_slots_size bits [] = Inr bits"
| "build_bitmap tagged_slots_size bits (idx # idxs) =
     (let index = tagged_slots_size - 1 - idx;
          byte_index = drop_bit kBitsPerByteLog2 index;
          bit_index = index AND (kBitsPerByte - 1)
      in if 0 \<le> byte_index \<and> byte_index < int (length bits)
         then build_bitmap tagged_slots_size
                (bits[nat byte_index := bits ! nat byte_index OR push_bit (nat bit_index) 1])
                idxs
         else Inl OutOfBounds)"

text \<open>The loop that emits the bitmaps: \<^verbatim>\<open>bits\<close> is filled with 0 for each entry.\<close>

fun emit_bitmaps :: "int \<Rightarrow> int \<Rightarrow> EntryBuilder list \<Rightarrow> error + byte list" where
  "emit_bitmaps tagged_slots_size bitmap_bytes [] = Inr []"
| "emit_bitmaps tagged_slots_size bitmap_bytes (entry # entries) =
     (case build_bitmap tagged_slots_size (replicate (nat bitmap_bytes) 0)
             (stack_indexes entry) of
        Inl err \<Rightarrow> Inl err
      | Inr bits \<Rightarrow>
          (case emit_bitmaps tagged_slots_size bitmap_bytes entries of
             Inl err \<Rightarrow> Inl err
           | Inr rest \<Rightarrow> Inr (bits @ rest)))"

text \<open>\<^verbatim>\<open>Emit\<close> after \<^verbatim>\<open>RemoveDuplicates\<close> and \<^verbatim>\<open>TrimEntries\<close>.\<close>

definition emit_table :: "layout \<Rightarrow> EntryBuilder list \<Rightarrow> int \<Rightarrow> error + byte list" where
  "emit_table L entries tagged_slots_size =
     (let c = derive_configuration entries tagged_slots_size
      in if \<not> configuration_valid L c then Inl CheckFailed
         else case emit_bitmaps tagged_slots_size (tagged_slots_bytes c) entries of
                Inl err \<Rightarrow> Inl err
              | Inr bitmaps \<Rightarrow>
                  Inr (dd (word_of_int (int (length entries))) @
                       dd (entry_configuration L c) @
                       concat (map (emit_entry c) entries) @
                       bitmaps))"

definition Emit :: "layout \<Rightarrow> EntryBuilder list \<Rightarrow> int \<Rightarrow> error + byte list" where
  "Emit L entries tagged_slots_size =
     (case TrimEntries (RemoveDuplicates entries) tagged_slots_size of
        (entries', tagged_slots_size') \<Rightarrow> emit_table L entries' tagged_slots_size')"

text \<open>The checks of the \<^verbatim>\<open>DEBUG\<close> block at the head of \<^verbatim>\<open>Emit\<close>: the state of
  its loop is \<^verbatim>\<open>last_pc\<close> and \<^verbatim>\<open>last_trampoline\<close>; \<open>back_pc\<close> is
  \<^verbatim>\<open>entries_.back().pc\<close>.\<close>

fun debug_checks :: "int \<Rightarrow> int \<Rightarrow> int \<Rightarrow> EntryBuilder list \<Rightarrow> bool" where
  "debug_checks back_pc last_pc last_trampoline [] = True"
| "debug_checks back_pc last_pc last_trampoline (entry # entries) =
     (last_pc < pc entry \<and>
      (if trampoline entry \<noteq> kNoTrampolinePC
       then last_trampoline < trampoline entry \<and> back_pc < trampoline entry
       else True) \<and>
      ((trampoline entry = kNoTrampolinePC) = (deopt_index entry = kNoDeoptIndex)) \<and>
      debug_checks back_pc (pc entry)
        (if trampoline entry \<noteq> kNoTrampolinePC then trampoline entry else last_trampoline)
        entries)"

definition Emit_DCHECKs :: "EntryBuilder list \<Rightarrow> bool" where
  "Emit_DCHECKs entries =
     (case entries of [] \<Rightarrow> True
      | _ \<Rightarrow> debug_checks (pc (last entries)) (- 1) (- 1) entries)"

subsection \<open>The reader\<close>

text \<open>Modelled from the spec: \<^verbatim>\<open>base::Memory<T>(address)\<close> reads a little-endian
  value.  The memory of a table is a function from the byte offset behind
  \<^verbatim>\<open>safepoint_table_address_\<close> to the byte stored there.\<close>

definition Memory_uint32 :: "(nat \<Rightarrow> byte) \<Rightarrow> nat \<Rightarrow> 32 word" where
  "Memory_uint32 m a =
     ucast (m a) OR push_bit 8 (ucast (m (a + 1))) OR push_bit 16 (ucast (m (a + 2))) OR
     push_bit 24 (ucast (m (a + 3)))"

definition Memory_int :: "(nat \<Rightarrow> byte) \<Rightarrow> nat \<Rightarrow> int" where
  "Memory_int m a = sint (Memory_uint32 m a)"

definition kLengthOffset :: nat where
  "kLengthOffset = 0"

definition kEntryConfigurationOffset :: nat where
  "kEntryConfigurationOffset = 4"

definition kHeaderSize :: nat where
  "kHeaderSize = 8"

text \<open>The fields \<^verbatim>\<open>instruction_start_\<close>, \<^verbatim>\<open>length_\<close> and \<^verbatim>\<open>entry_configuration_\<close> of
  the reader, and the memory at \<^verbatim>\<open>safepoint_table_address_\<close>.\<close>

record SafepointTable =
  instruction_start :: "64 word"
  table_memory :: "nat \<Rightarrow> byte"
  table_length :: int
  table_entry_configuration :: "32 word"

text \<open>The constructor \<^verbatim>\<open>SafepointTable(instruction_start, safepoint_table_address)\<close>.\<close>

definition SafepointTable_at :: "64 word \<Rightarrow> (nat \<Rightarrow> byte) \<Rightarrow> SafepointTable" where
  "SafepointTable_at start m =
     \<lparr>instruction_start = start, table_memory = m,
      table_length = Memory_int m kLengthOffset,
      table_entry_configuration = Memory_uint32 m kEntryConfigurationOffset\<rparr>"

text \<open>The memory that holds the emitted bytes at the table address (and 0 behind
  them).\<close>

definition memory_of :: "byte list \<Rightarrow> nat \<Rightarrow> byte" where
  "memory_of bytes a = (if a < length bytes then bytes ! a else 0)"

text \<open>Modelled from the spec: the accessors of the configuration word (declared in
  \<^verbatim>\<open>safepoint-table.h\<close>, which is not part of the sources).\<close>

definition table_has_deopt_data :: "SafepointTable \<Rightarrow> bool" where
  "table_has_deopt_data t = (decode HasDeoptDataField (table_entry_configuration t) \<noteq> 0)"

definition table_register_indexes_size :: "layout \<Rightarrow> SafepointTable \<Rightarrow> nat" where
  "table_register_indexes_size L t =
     nat (decode (RegisterIndexesSizeField L) (table_entry_configuration t))"

definition table_pc_size :: "layout \<Rightarrow> SafepointTable \<Rightarrow> nat" where
  "table_pc_size L t = nat (decode (PcSizeField L) (table_entry_configuration t))"

definition table_deopt_index_size :: "layout \<Rightarrow> SafepointTable \<Rightarrow> nat" where
  "table_deopt_index_size L t = nat (decode (DeoptIndexSizeField L) (table_entry_configuration t))"

definition table_tagged_slots_bytes :: "layout \<Rightarrow> SafepointTable \<Rightarrow> nat" where
  "table_tagged_slots_bytes L t =
     nat (decode (TaggedSlotsBytesField L) (table_entry_configuration t))"

text \<open>Modelled from the spec: the size of one entry record (section 6):
  \<open>pc\<close>, then the deopt index and the trampoline when the table has deopt data,
  then the register mask.\<close>

definition entry_size :: "layout \<Rightarrow> SafepointTable \<Rightarrow> nat" where
  "entry_size L t =
     table_pc_size L t +
     (if table_has_deopt_data t then table_deopt_index_size L t + table_pc_size L t else 0) +
     table_register_indexes_size L t"

text \<open>Modelled from the spec: \<^verbatim>\<open>byte_size\<close> (section 4.2).\<close>

definition byte_size :: "layout \<Rightarrow> SafepointTable \<Rightarrow> nat" where
  "byte_size L t =
     kHeaderSize + nat (table_length t) * entry_size L t +
     nat (table_length t) * table_tagged_slots_bytes L t"

text \<open>Modelled from the spec: a field of \<open>n\<close> bytes at offset \<open>a\<close>, little-endian.\<close>

fun read_bytes :: "(nat \<Rightarrow> byte) \<Rightarrow> nat \<Rightarrow> nat \<Rightarrow> int" where
  "read_bytes m a 0 = 0"
| "read_bytes m a (Suc n) = uint (m a) + 256 * read_bytes m (Suc a) n"

text \<open>\<^verbatim>\<open>SafepointEntry\<close>, the decoded view of one entry.\<close>

record SafepointEntry =
  entry_pc :: int
  deoptimization_index :: int
  tagged_register_indexes :: int
  tagged_slots :: "byte list"
  trampoline_pc :: int

text \<open>Modelled from the spec: \<^verbatim>\<open>GetEntry\<close> (defined in \<^verbatim>\<open>safepoint-table.h\<close>, which
  is not part of the sources) decodes the record of section 6 at \<open>index\<close>: the
  deopt index and the trampoline are stored plus one, and are \<open>-1\<close> (absent) in a
  table without deopt data; the bitmap of the entry is the \<open>index\<close>-th behind the
  records.\<close>

definition GetEntry :: "layout \<Rightarrow> SafepointTable \<Rightarrow> int \<Rightarrow> SafepointEntry" where
  "GetEntry L t index =
     (let m = table_memory t;
          a = kHeaderSize + nat index * entry_size L t;
          b = a + table_pc_size L t;
          r = (if table_has_deopt_data t
               then b + table_deopt_index_size L t + table_pc_size L t else b);
          s = kHeaderSize + nat (table_length t) * entry_size L t
                + nat index * table_tagged_slots_bytes L t
      in \<lparr>entry_pc = read_bytes m a (table_pc_size L t),
          deoptimization_index =
            (if table_has_deopt_data t
             then read_bytes m b (table_deopt_index_size L t) - 1 else kNoDeoptIndex),
          tagged_register_indexes = read_bytes m r (table_register_indexes_size L t),
          tagged_slots = map m [s ..< s + table_tagged_slots_bytes L t],
          trampoline_pc =
            (if table_has_deopt_data t
             then read_bytes m (b + table_deopt_index_size L t) (table_pc_size L t) - 1
             else kNoTrampolinePC)\<rparr>)"

text \<open>The first loop of \<^verbatim>\<open>FindEntry\<close>, from index \<open>i\<close> with the candidate so far;
  \<open>tp\<close> is \<^verbatim>\<open>trampoline_pc\<close>.\<close>

function trampoline_candidate :: "layout \<Rightarrow> SafepointTable \<Rightarrow> int \<Rightarrow> int \<Rightarrow> int \<Rightarrow> int" where
  "trampoline_candidate L t pc_offset i candidate =
     (if i < table_length t
      then (let tp = trampoline_pc (GetEntry L t i);
                candidate' = (if tp \<noteq> - 1 \<and> tp \<le> pc_offset then i else candidate)
            in if tp > pc_offset then candidate'
               else trampoline_candidate L t pc_offset (i + 1) candidate')
      else candidate)"
  by pat_completeness auto
termination
  by (relation "measure (\<lambda>(L, t, pc_offset, i, candidate). nat (table_length t - i))") auto

declare trampoline_candidate.simps [simp del]

text \<open>The second loop of \<^verbatim>\<open>FindEntry\<close>, from index \<open>i\<close>; behind it
  \<^verbatim>\<open>UNREACHABLE()\<close>.\<close>

function pc_scan :: "layout \<Rightarrow> SafepointTable \<Rightarrow> int \<Rightarrow> int \<Rightarrow> error + SafepointEntry" where
  "pc_scan L t pc_offset i =
     (if i < table_length t
      then (if i = table_length t - 1 \<or> entry_pc (GetEntry L t (i + 1)) > pc_offset
            then Inr (GetEntry L t i)
            else pc_scan L t pc_offset (i + 1))
      else Inl Unreachable)"
  by pat_completeness auto
termination
  by (relation "measure (\<lambda>(L, t, pc_offset, i). nat (table_length t - i))") auto

declare pc_scan.simps [simp del]

text \<open>\<^verbatim>\<open>FindEntry\<close> behind the computation of \<^verbatim>\<open>pc_offset\<close>.\<close>

definition find_entry_at :: "layout \<Rightarrow> SafepointTable \<Rightarrow> int \<Rightarrow> error + SafepointEntry" where
  "find_entry_at L t pc_offset =
     (let candidate =
            (if table_has_deopt_data t then trampoline_candidate L t pc_offset 0 (- 1)
             else - 1)
      in if candidate \<noteq> - 1 then Inr (GetEntry L t candidate)
         else pc_scan L t pc_offset 0)"

text \<open>\<^verbatim>\<open>static_cast<int>(pc - instruction_start)\<close> on 64-bit addresses.\<close>

definition pc_offset_of :: "SafepointTable \<Rightarrow> 64 word \<Rightarrow> int" where
  "pc_offset_of t address = sint (ucast (address - instruction_start t) :: 32 word)"

definition FindEntry :: "layout \<Rightarrow> SafepointTable \<Rightarrow> 64 word \<Rightarrow> error + SafepointEntry" where
  "FindEntry L t address = find_entry_at L t (pc_offset_of t address)"

text \<open>The entries of a table in index order, as \<^verbatim>\<open>GetEntry\<close> decodes them.\<close>

definition table_entries :: "layout \<Rightarrow> SafepointTable \<Rightarrow> SafepointEntry list" where
  "table_entries L t = map (\<lambda>i. GetEntry L t (int i)) [0 ..< nat (table_length t)]"

subsection \<open>The specification's view of deduplication\<close>

text \<open>Section 4.1 (2) of the specification: a maximal run of consecutive mergeable
  entries collapses to its first member.  \<open>collapse_runs\<close> drops an entry that is
  mergeable with the member kept before it.\<close>

fun collapse_runs :: "EntryBuilder list \<Rightarrow> EntryBuilder list" where
  "collapse_runs [] = []"
| "collapse_runs [e] = [e]"
| "collapse_runs (a # b # es) =
     (if is_identical_except_for_pc b a then collapse_runs (a # es)
      else a # collapse_runs (b # es))"

subsection \<open>Emitted bytes in memory\<close>

text \<open>The memory holds the bytes \<open>xs\<close> from offset \<open>a\<close> on.\<close>

definition holds :: "(nat \<Rightarrow> byte) \<Rightarrow> nat \<Rightarrow> byte list \<Rightarrow> bool" where
  "holds m a xs = (\<forall>k<length xs. m (a + k) = xs ! k)"

text \<open>Bit \<open>p mod 8\<close> of byte \<open>p div 8\<close> of a bitmap.\<close>

definition bitmap_bit :: "byte list \<Rightarrow> int \<Rightarrow> bool" where
  "bitmap_bit bits p = bit (bits ! nat (p div 8)) (nat (p mod 8))"

text \<open>The bitmap \<^verbatim>\<open>Emit\<close> builds for one entry, when every write is inside the vector.\<close>

definition entry_bitmap :: "int \<Rightarrow> int \<Rightarrow> EntryBuilder \<Rightarrow> byte list" where
  "entry_bitmap sz nbytes e =
     (case build_bitmap sz (replicate (nat nbytes) 0) (stack_indexes e) of
        Inl err \<Rightarrow> [] | Inr bits \<Rightarrow> bits)"

text \<open>The values of the entries are \<^verbatim>\<open>int\<close>s that \<^verbatim>\<open>Emit\<close> can emit: the
  \<^verbatim>\<open>DCHECK_LE(0, value)\<close> of \<^verbatim>\<open>emit_bytes\<close> holds for each field, and adding 1
  does not overflow 32 bits.\<close>

definition int_ranges :: "EntryBuilder list \<Rightarrow> bool" where
  "int_ranges es =
     (int (length es) < 2 ^ 31 \<and>
      (\<forall>e\<in>set es.
         0 \<le> pc e \<and> pc e < 2 ^ 31 - 1 \<and>
         - 1 \<le> trampoline e \<and> trampoline e < 2 ^ 31 - 1 \<and>
         - 1 \<le> deopt_index e \<and> deopt_index e < 2 ^ 31 - 1 \<and>
         0 \<le> register_indexes e \<and> register_indexes e < 2 ^ 31))"

subsection \<open>Examples\<close>

definition trampoline_example :: "EntryBuilder list" where
  "trampoline_example = [new_entry 10, new_entry 20\<lparr>trampoline := 1000, deopt_index := 0\<rparr>]"

definition trampoline_example_table :: SafepointTable where
  "trampoline_example_table =
     SafepointTable_at 4096
       (memory_of [2, 0, 0, 0, 49, 0, 0, 0, 10, 0, 0, 0, 0, 20, 0, 1, 233, 3])"

definition last_entry_example :: "EntryBuilder list" where
  "last_entry_example = [new_entry 0\<lparr>trampoline := 100, deopt_index := 0\<rparr>, new_entry 10]"

definition last_entry_example_table :: SafepointTable where
  "last_entry_example_table =
     SafepointTable_at 4096 (memory_of [2, 0, 0, 0, 41, 0, 0, 0, 0, 1, 101, 10, 0, 0])"

subsection \<open>The slot indexes of the entries\<close>

text \<open>The slot indexes the entries reference, in the order \<^verbatim>\<open>TrimEntries\<close> visits
  them.\<close>

definition referenced_indexes :: "EntryBuilder list \<Rightarrow> int list" where
  "referenced_indexes es = concat (map stack_indexes es)"

text \<open>Section 3 of the specification: every stack-slot index an entry references is
  below \<^verbatim>\<open>tagged_slots_size\<close> (and is not negative).\<close>

definition slots_in_region :: "EntryBuilder list \<Rightarrow> int \<Rightarrow> bool" where
  "slots_in_region es sz = (\<forall>idx\<in>set (referenced_indexes es). 0 \<le> idx \<and> idx < sz)"

definition no_slots_example :: "EntryBuilder list" where
  "no_slots_example = [new_entry 0, new_entry 4\<lparr>register_indexes := 1\<rparr>]"

subsection \<open>The entries and the configuration of the emitted table\<close>

text \<open>The entries and \<^verbatim>\<open>tagged_slots_size\<close> after \<^verbatim>\<open>RemoveDuplicates\<close> and
  \<^verbatim>\<open>TrimEntries\<close>, and the configuration \<^verbatim>\<open>Emit\<close> derives from them.\<close>

definition finalized :: "EntryBuilder list \<Rightarrow> int \<Rightarrow> EntryBuilder list \<times> int" where
  "finalized entries tagged_slots_size = TrimEntries (RemoveDuplicates entries) tagged_slots_size"

definition Emit_configuration :: "EntryBuilder list \<Rightarrow> int \<Rightarrow> configuration" where
  "Emit_configuration entries tagged_slots_size =
     derive_configuration (fst (finalized entries tagged_slots_size))
       (snd (finalized entries tagged_slots_size))"

text \<open>Section 4.1 (4) of the specification: each derived width fits the number of
  bits allotted to it in the configuration word.\<close>

definition widths_fit :: "layout \<Rightarrow> configuration \<Rightarrow> bool" where
  "widths_fit L c =
     (0 \<le> register_indexes_size c \<and> register_indexes_size c < 2 ^ register_indexes_size_bits L \<and>
      0 \<le> pc_size c \<and> pc_size c < 2 ^ pc_size_bits L \<and>
      0 \<le> deopt_index_size c \<and> deopt_index_size c < 2 ^ deopt_index_size_bits L \<and>
      0 \<le> tagged_slots_bytes c \<and> tagged_slots_bytes c < 2 ^ tagged_slots_bytes_bits L)"

text \<open>The size of one emitted entry record.\<close>

definition record_size :: "configuration \<Rightarrow> nat" where
  "record_size c =
     nat (pc_size c) +
     (if has_deopt_data c then nat (deopt_index_size c) + nat (pc_size c) else 0) +
     nat (register_indexes_size c)"

definition huge_frame_example :: "EntryBuilder list" where
  "huge_frame_example = [new_entry 0\<lparr>stack_indexes := [0]\<rparr>]"

text \<open>Section 4.1 (4) of the specification: \<open>n\<close> is the minimal number of bytes that
  represents the value \<open>v\<close>.\<close>

definition minimal_width :: "int \<Rightarrow> int \<Rightarrow> bool" where
  "minimal_width v n = (0 \<le> n \<and> v < 256 ^ nat n \<and> (\<forall>k. v < 256 ^ k \<longrightarrow> n \<le> int k))"

definition mask_300_example :: "EntryBuilder list" where
  "mask_300_example = [new_entry 0\<lparr>register_indexes := 300\<rparr>, new_entry 4\<lparr>register_indexes := 2\<rparr>]"

subsection \<open>The specification's view of the serialized layout\<close>

text \<open>Section 4.1 (5) of the specification: a field of \<open>n\<close> bytes holding the value
  \<open>v\<close>, little-endian; the record of an entry.\<close>

definition le_bytes :: "nat \<Rightarrow> int \<Rightarrow> byte list" where
  "le_bytes n v = map (\<lambda>k. word_of_int (v div 256 ^ k)) [0 ..< n]"

definition spec_record :: "configuration \<Rightarrow> EntryBuilder \<Rightarrow> byte list" where
  "spec_record c e =
     le_bytes (nat (pc_size c)) (pc e) @
     (if has_deopt_data c
      then le_bytes (nat (deopt_index_size c)) (deopt_index e + 1) @
           le_bytes (nat (pc_size c)) (trampoline e + 1)
      else []) @
     le_bytes (nat (register_indexes_size c)) (register_indexes e)"

definition end_to_end_example :: "EntryBuilder list" where
  "end_to_end_example =
     [new_entry 0\<lparr>stack_indexes := [0, 2]\<rparr>,
      new_entry 5\<lparr>stack_indexes := [0, 2], register_indexes := 2\<rparr>,
      new_entry 9]"

subsection \<open>Reading the emitted table\<close>

text \<open>The view of a builder entry that the reader decodes from a table with the
  configuration \<open>c\<close> (section 6 of the specification).\<close>

definition decoded_entry :: "configuration \<Rightarrow> int \<Rightarrow> EntryBuilder \<Rightarrow> SafepointEntry" where
  "decoded_entry c sz e =
     \<lparr>entry_pc = pc e,
      deoptimization_index = (if has_deopt_data c then deopt_index e else - 1),
      tagged_register_indexes = register_indexes e,
      tagged_slots = entry_bitmap sz (tagged_slots_bytes c) e,
      trampoline_pc = (if has_deopt_data c then trampoline e else - 1)\<rparr>"

text \<open>Modelled from the spec: the slot indexes a decoded bitmap stands for (section
  4.1 (5); the stack walker that reads the bitmap is not part of the sources):
  with \<open>sz\<close> slots in the tagged region, slot \<open>s\<close> is tagged when bit
  \<open>(sz - 1 - s) mod 8\<close> of byte \<open>(sz - 1 - s) div 8\<close> is set.\<close>

definition decoded_slots :: "int \<Rightarrow> SafepointEntry \<Rightarrow> int list" where
  "decoded_slots sz d = filter (\<lambda>s. bitmap_bit (tagged_slots d) (sz - 1 - s)) [0 .. sz - 1]"

text \<open>The amount \<^verbatim>\<open>TrimEntries\<close> subtracts when every index lies in the tagged
  region: the minimum index referenced, or the whole size when no index is
  referenced.\<close>

definition trim_amount :: "EntryBuilder list \<Rightarrow> int \<Rightarrow> int" where
  "trim_amount es sz =
     (if referenced_indexes es = [] then sz else Min (set (referenced_indexes es)))"

definition round_trip_example :: "EntryBuilder list" where
  "round_trip_example =
     [new_entry 0\<lparr>stack_indexes := [2, 4], register_indexes := 1\<rparr>,
      new_entry 4\<lparr>stack_indexes := [2, 4], register_indexes := 1\<rparr>,
      new_entry 8\<lparr>stack_indexes := [3], register_indexes := 6\<rparr>]"

definition dedup_example :: "EntryBuilder list" where
  "dedup_example =
     [new_entry 0\<lparr>stack_indexes := [0, 1], register_indexes := 2\<rparr>,
      new_entry 4\<lparr>stack_indexes := [0, 1], register_indexes := 2\<rparr>,
      new_entry 8\<lparr>stack_indexes := [0, 1], register_indexes := 2\<rparr>]"

definition dedup_example_table :: SafepointTable where
  "dedup_example_table = SafepointTable_at 4096 (memory_of [1, 0, 0, 0, 138, 0, 0, 0, 0, 2, 3])"

section \<open>Properties of \<^verbatim>\<open>RemoveDuplicates\<close>\<close>

lemma is_identical_except_for_pc_iff:
  "is_identical_except_for_pc a b \<longleftrightarrow>
     deopt_index a = deopt_index b \<and> stack_indexes a = stack_indexes b \<and>
     register_indexes a = register_indexes b"
  by (auto simp: is_identical_except_for_pc_def list_all2_eq [symmetric])

lemma remove_duplicates_loop_collapse: "remove_duplicates_loop es = collapse_runs es"
  by (induction es rule: collapse_runs.induct) auto

lemma RemoveDuplicates_collapse: "RemoveDuplicates es = collapse_runs es"
proof (cases es)
  case Nil
  then show ?thesis by (simp add: RemoveDuplicates_def)
next
  case (Cons a as)
  then show ?thesis
    by (cases as) (simp_all add: RemoveDuplicates_def remove_duplicates_loop_collapse)
qed

lemma collapse_runs_merge:
  "is_identical_except_for_pc e2 e1 \<Longrightarrow>
   collapse_runs (xs @ e1 # e2 # ys) = collapse_runs (xs @ e1 # ys)"
proof (induction xs rule: collapse_runs.induct)
  case 1
  then show ?case by simp
next
  case (2 e)
  then show ?case by (auto simp: is_identical_except_for_pc_iff)
next
  case (3 a b es)
  then show ?case by auto
qed

text \<open>
  Claim C5, as the code has it: two consecutive entries with the same
  \<open>deopt_index\<close>, the same register mask and the same sequence of tagged-slot
  indexes (the same indexes registered in the same order) are merged: the table
  is the one the builder makes without the second entry.
\<close>

theorem RemoveDuplicates_merges_equal_sequences:
  assumes "deopt_index e1 = deopt_index e2"
    and "register_indexes e1 = register_indexes e2"
    and "stack_indexes e1 = stack_indexes e2"
  shows "RemoveDuplicates (xs @ e1 # e2 # ys) = RemoveDuplicates (xs @ e1 # ys)"
  using assms
  by (simp add: RemoveDuplicates_collapse collapse_runs_merge is_identical_except_for_pc_iff)

theorem RemoveDuplicates_merges_equal_sequences_witness:
  "RemoveDuplicates
     ([] @ new_entry 0\<lparr>stack_indexes := [0, 2]\<rparr> # new_entry 4\<lparr>stack_indexes := [0, 2]\<rparr> # []) =
   [new_entry 0\<lparr>stack_indexes := [0, 2]\<rparr>]"
  using RemoveDuplicates_merges_equal_sequences
    [of "new_entry 0\<lparr>stack_indexes := [0, 2]\<rparr>" "new_entry 4\<lparr>stack_indexes := [0, 2]\<rparr>" "[]" "[]"]
  by (simp add: new_entry_def RemoveDuplicates_def)

text \<open>
  Claim C5 as stated fails: the slot indexes 0 and 2 registered in the two orders
  are the same set, the deopt index and the register mask agree, and
  \<^verbatim>\<open>RemoveDuplicates\<close> keeps both entries.
\<close>

theorem RemoveDuplicates_set_equal_counterexample:
  "deopt_index (new_entry 0\<lparr>stack_indexes := [0, 2]\<rparr>) =
     deopt_index (new_entry 4\<lparr>stack_indexes := [2, 0]\<rparr>) \<and>
   register_indexes (new_entry 0\<lparr>stack_indexes := [0, 2]\<rparr>) =
     register_indexes (new_entry 4\<lparr>stack_indexes := [2, 0]\<rparr>) \<and>
   set (stack_indexes (new_entry 0\<lparr>stack_indexes := [0, 2]\<rparr>)) =
     set (stack_indexes (new_entry 4\<lparr>stack_indexes := [2, 0]\<rparr>)) \<and>
   RemoveDuplicates
     [new_entry 0\<lparr>stack_indexes := [0, 2]\<rparr>, new_entry 4\<lparr>stack_indexes := [2, 0]\<rparr>] =
   [new_entry 0\<lparr>stack_indexes := [0, 2]\<rparr>, new_entry 4\<lparr>stack_indexes := [2, 0]\<rparr>]"
  by (auto simp: new_entry_def RemoveDuplicates_def is_identical_except_for_pc_def)

section \<open>Properties of \<^verbatim>\<open>FindEntry\<close>\<close>

lemma trampoline_candidate_step:
  "i < table_length t \<Longrightarrow> trampoline_pc (GetEntry L t i) \<le> pc_offset \<Longrightarrow>
   trampoline_candidate L t pc_offset i candidate =
   trampoline_candidate L t pc_offset (i + 1)
     (if trampoline_pc (GetEntry L t i) \<noteq> - 1 then i else candidate)"
  by (subst trampoline_candidate.simps) (simp add: Let_def)

lemma trampoline_candidate_break:
  "i < table_length t \<Longrightarrow> pc_offset < trampoline_pc (GetEntry L t i) \<Longrightarrow>
   trampoline_candidate L t pc_offset i candidate = candidate"
  by (subst trampoline_candidate.simps) (simp add: Let_def)

lemma trampoline_candidate_end:
  "\<not> i < table_length t \<Longrightarrow> trampoline_candidate L t pc_offset i candidate = candidate"
  by (subst trampoline_candidate.simps) simp

lemma trampoline_candidate_keep:
  assumes "i \<le> b" and "b \<le> table_length t"
    and "\<forall>j. i \<le> j \<and> j < b \<longrightarrow> trampoline_pc (GetEntry L t j) = - 1"
    and "b = table_length t \<or> pc_offset < trampoline_pc (GetEntry L t b)"
  shows "trampoline_candidate L t pc_offset i candidate = candidate"
  using assms
proof (induction "nat (b - i)" arbitrary: i)
  case 0
  then have "i = b" by simp
  with "0.prems"(2,4) show ?case
    by (cases "b < table_length t")
       (auto simp: trampoline_candidate_break trampoline_candidate_end)
next
  case (Suc n)
  then have ib: "i < b" and il: "i < table_length t" by auto
  with Suc.prems(3) have m1: "trampoline_pc (GetEntry L t i) = - 1" by simp
  have IH: "trampoline_candidate L t pc_offset (i + 1) candidate = candidate"
  proof (rule Suc.hyps(1))
    show "n = nat (b - (i + 1))" using Suc.hyps(2) by simp
    show "i + 1 \<le> b" using ib by simp
    show "b \<le> table_length t" by (rule Suc.prems(2))
    show "\<forall>j. i + 1 \<le> j \<and> j < b \<longrightarrow> trampoline_pc (GetEntry L t j) = - 1"
      using Suc.prems(3) by simp
    show "b = table_length t \<or> pc_offset < trampoline_pc (GetEntry L t b)"
      by (rule Suc.prems(4))
  qed
  show ?case
  proof (cases "trampoline_pc (GetEntry L t i) \<le> pc_offset")
    case True
    with trampoline_candidate_step [OF il True] m1 IH show ?thesis by simp
  next
    case False
    with trampoline_candidate_break [OF il] show ?thesis by simp
  qed
qed

lemma trampoline_candidate_found:
  assumes "i \<le> c" and "c < b" and "b \<le> table_length t"
    and "\<forall>j. i \<le> j \<and> j < b \<longrightarrow> trampoline_pc (GetEntry L t j) \<le> pc_offset"
    and "b = table_length t \<or> pc_offset < trampoline_pc (GetEntry L t b)"
    and "trampoline_pc (GetEntry L t c) \<noteq> - 1"
    and "\<forall>j. c < j \<and> j < b \<longrightarrow> trampoline_pc (GetEntry L t j) = - 1"
  shows "trampoline_candidate L t pc_offset i candidate = c"
  using assms(1,4)
proof (induction "nat (c - i)" arbitrary: i candidate)
  case 0
  then have ic: "i = c" by simp
  have cl: "c < table_length t" and le: "trampoline_pc (GetEntry L t c) \<le> pc_offset"
    using assms(2,3) "0.prems"(2) ic by auto
  have "trampoline_candidate L t pc_offset c candidate =
      trampoline_candidate L t pc_offset (c + 1) c"
    using trampoline_candidate_step [OF cl le] assms(6) by simp
  also have "\<dots> = c"
    using assms(2,3,5,7) by (intro trampoline_candidate_keep [where b = b]) auto
  finally show ?case using ic by simp
next
  case (Suc n)
  then have ic: "i < c" by simp
  then have il: "i < table_length t" and le: "trampoline_pc (GetEntry L t i) \<le> pc_offset"
    using assms(2,3) Suc.prems(2) by auto
  have "trampoline_candidate L t pc_offset (i + 1)
      (if trampoline_pc (GetEntry L t i) \<noteq> - 1 then i else candidate) = c"
  proof (rule Suc.hyps(1))
    show "n = nat (c - (i + 1))" using Suc.hyps(2) by simp
    show "i + 1 \<le> c" using ic by simp
    show "\<forall>j. i + 1 \<le> j \<and> j < b \<longrightarrow> trampoline_pc (GetEntry L t j) \<le> pc_offset"
      using Suc.prems(2) by simp
  qed
  with trampoline_candidate_step [OF il le] show ?case by simp
qed

lemma trampoline_candidate_none:
  "(\<And>j. i \<le> j \<Longrightarrow> j < table_length t \<Longrightarrow>
      trampoline_pc (GetEntry L t j) = - 1 \<or> pc_offset < trampoline_pc (GetEntry L t j)) \<Longrightarrow>
   trampoline_candidate L t pc_offset i candidate = candidate"
proof (induction L t pc_offset i candidate rule: trampoline_candidate.induct)
  case (1 L t pc_offset i candidate)
  show ?case
  proof (cases "i < table_length t")
    case False
    then show ?thesis by (simp add: trampoline_candidate.simps)
  next
    case True
    let ?tp = "trampoline_pc (GetEntry L t i)"
    have tp: "?tp = - 1 \<or> pc_offset < ?tp"
      using "1.prems" [of i] True by simp
    show ?thesis
    proof (cases "?tp > pc_offset")
      case True
      with tp \<open>i < table_length t\<close> show ?thesis
        by (subst trampoline_candidate.simps) (auto simp: Let_def)
    next
      case False
      with tp have m1: "?tp = - 1" by auto
      have "trampoline_candidate L t pc_offset (i + 1) candidate = candidate"
        using "1.IH" [OF True refl refl False] m1 "1.prems" by auto
      with m1 False True show ?thesis
        by (subst trampoline_candidate.simps) (simp add: Let_def)
    qed
  qed
qed

lemma pc_scan_finds:
  "k \<le> i \<Longrightarrow> i < table_length t \<Longrightarrow>
   (\<And>j. k \<le> j \<Longrightarrow> j < i \<Longrightarrow> entry_pc (GetEntry L t (j + 1)) \<le> pc_offset) \<Longrightarrow>
   i = table_length t - 1 \<or> pc_offset < entry_pc (GetEntry L t (i + 1)) \<Longrightarrow>
   pc_scan L t pc_offset k = Inr (GetEntry L t i)"
proof (induction L t pc_offset k rule: pc_scan.induct)
  case (1 L t pc_offset k)
  show ?case
  proof (cases "k = i")
    case True
    with "1.prems" show ?thesis
      by (subst pc_scan.simps) auto
  next
    case False
    with "1.prems" have lt: "k < i" by simp
    then have le: "entry_pc (GetEntry L t (k + 1)) \<le> pc_offset"
      using "1.prems"(3) [of k] by simp
    have kl: "k < table_length t" "k \<noteq> table_length t - 1"
      using lt "1.prems"(2) by auto
    have "pc_scan L t pc_offset (k + 1) = Inr (GetEntry L t i)"
      using "1.IH" kl le lt "1.prems" by auto
    with kl le show ?thesis
      by (subst pc_scan.simps) auto
  qed
qed

lemma length_table_entries: "length (table_entries L t) = nat (table_length t)"
  by (simp add: table_entries_def)

lemma nth_table_entries:
  "j < nat (table_length t) \<Longrightarrow> table_entries L t ! j = GetEntry L t (int j)"
  by (simp add: table_entries_def)

lemma GetEntry_table_entries:
  "0 \<le> j \<Longrightarrow> j < table_length t \<Longrightarrow> GetEntry L t j = table_entries L t ! nat j"
  by (simp add: table_entries_def)


text \<open>
  Claim C3: in a table with deopt data, \<^verbatim>\<open>FindEntry\<close> first scans the entries in
  index order up to the first one whose trampoline exceeds the pc offset (index
  \<open>b\<close>, the number of entries when there is none); when \<open>c\<close> is the last entry
  scanned whose trampoline is defined (not \<open>-1\<close>; it is at most the offset), that
  entry is returned, whatever the pcs of the entries are.
\<close>

theorem FindEntry_trampoline_precedence:
  assumes deopt: "table_has_deopt_data t"
    and offset: "pc_offset_of t address = pc_offset"
    and cb: "c < b" and bl: "b \<le> length (table_entries L t)"
    and scanned: "\<forall>j<b. trampoline_pc (table_entries L t ! j) \<le> pc_offset"
    and stop: "b = length (table_entries L t) \<or> pc_offset < trampoline_pc (table_entries L t ! b)"
    and defined: "trampoline_pc (table_entries L t ! c) \<noteq> - 1"
    and last: "\<forall>j. c < j \<and> j < b \<longrightarrow> trampoline_pc (table_entries L t ! j) = - 1"
  shows "FindEntry L t address = Inr (table_entries L t ! c)"
proof -
  have bl': "int b \<le> table_length t"
    using bl cb by (simp add: length_table_entries)
  have nth: "GetEntry L t j = table_entries L t ! nat j" if "0 \<le> j" "j < int b" for j
    using that bl' by (intro GetEntry_table_entries) auto
  have "trampoline_candidate L t pc_offset 0 (- 1) = int c"
  proof (rule trampoline_candidate_found [where b = "int b"])
    show "0 \<le> int c" "int c < int b" "int b \<le> table_length t"
      using cb bl' by auto
    show "\<forall>j. 0 \<le> j \<and> j < int b \<longrightarrow> trampoline_pc (GetEntry L t j) \<le> pc_offset"
      using scanned nth by auto
    show "int b = table_length t \<or> pc_offset < trampoline_pc (GetEntry L t (int b))"
    proof (cases "b = length (table_entries L t)")
      case True
      then have "b = nat (table_length t)" by (simp add: length_table_entries)
      moreover have "0 < b" using cb by simp
      ultimately have "int b = table_length t" by linarith
      then show ?thesis by simp
    next
      case False
      with stop bl have "pc_offset < trampoline_pc (table_entries L t ! b)" "b < nat (table_length t)"
        by (auto simp: length_table_entries)
      then show ?thesis by (simp add: nth_table_entries)
    qed
    show "trampoline_pc (GetEntry L t (int c)) \<noteq> - 1"
      using defined cb nth [of "int c"] by simp
    show "\<forall>j. int c < j \<and> j < int b \<longrightarrow> trampoline_pc (GetEntry L t j) = - 1"
    proof (intro allI impI)
      fix j assume j: "int c < j \<and> j < int b"
      then have "c < nat j \<and> nat j < b" by auto
      with last have "trampoline_pc (table_entries L t ! nat j) = - 1" by blast
      with nth [of j] j show "trampoline_pc (GetEntry L t j) = - 1" by simp
    qed
  qed
  moreover have "GetEntry L t (int c) = table_entries L t ! c"
    using nth [of "int c"] cb by simp
  ultimately show ?thesis
    using deopt offset by (simp add: FindEntry_def find_entry_at_def)
qed


text \<open>The example of claim C3: a safepoint at pc 10 and a later one at pc 20 with
  the trampoline 1000; the table emitted for them is looked up at offset 1000.\<close>

theorem FindEntry_trampoline_precedence_witness:
  "UpdateDeoptimizationInfo (DefineSafepoint (DefineSafepoint [] 10) 20) 20 1000 0 0 =
     Inr (trampoline_example, 1) \<and>
   Emit spec_layout trampoline_example 0 =
     Inr [2, 0, 0, 0, 49, 0, 0, 0, 10, 0, 0, 0, 0, 20, 0, 1, 233, 3] \<and>
   table_entries spec_layout trampoline_example_table =
     [\<lparr>entry_pc = 10, deoptimization_index = - 1, tagged_register_indexes = 0,
       tagged_slots = [], trampoline_pc = - 1\<rparr>,
      \<lparr>entry_pc = 20, deoptimization_index = 0, tagged_register_indexes = 0,
       tagged_slots = [], trampoline_pc = 1000\<rparr>] \<and>
   pc_offset_of trampoline_example_table (4096 + 1000) = 1000 \<and>
   FindEntry spec_layout trampoline_example_table (4096 + 1000) =
     Inr \<lparr>entry_pc = 20, deoptimization_index = 0, tagged_register_indexes = 0,
          tagged_slots = [], trampoline_pc = 1000\<rparr>"
proof -
  let ?t = trampoline_example_table
  have build: "UpdateDeoptimizationInfo (DefineSafepoint (DefineSafepoint [] 10) 20) 20 1000 0 0 =
      Inr (trampoline_example, 1)"
    by code_simp
  have emit: "Emit spec_layout trampoline_example 0 =
      Inr [2, 0, 0, 0, 49, 0, 0, 0, 10, 0, 0, 0, 0, 20, 0, 1, 233, 3]"
    by code_simp
  have es: "table_entries spec_layout ?t =
     [\<lparr>entry_pc = 10, deoptimization_index = - 1, tagged_register_indexes = 0,
       tagged_slots = [], trampoline_pc = - 1\<rparr>,
      \<lparr>entry_pc = 20, deoptimization_index = 0, tagged_register_indexes = 0,
       tagged_slots = [], trampoline_pc = 1000\<rparr>]"
    by code_simp
  have d: "table_has_deopt_data ?t"
    by code_simp
  have p: "pc_offset_of ?t (4096 + 1000) = 1000"
    by code_simp
  have "FindEntry spec_layout ?t (4096 + 1000) = Inr (table_entries spec_layout ?t ! 1)"
    by (rule FindEntry_trampoline_precedence [where b = 2 and pc_offset = 1000, OF d p])
       (auto simp: es less_Suc_eq numeral_2_eq_2)
  with build emit es p show ?thesis
    by simp
qed

lemma find_entry_between_pcs:
  assumes sorted: "sorted_wrt (<) (map entry_pc (table_entries L t))"
    and above: "\<forall>e\<in>set (table_entries L t). \<forall>e'\<in>set (table_entries L t).
                  trampoline_pc e \<noteq> - 1 \<longrightarrow> entry_pc e' < trampoline_pc e"
    and il: "i < length (table_entries L t)"
    and lower: "entry_pc (table_entries L t ! i) \<le> pc_offset"
    and upper: "i + 1 = length (table_entries L t) \<or>
                pc_offset < entry_pc (table_entries L t ! (i + 1))"
    and below: "i + 1 = length (table_entries L t) \<longrightarrow>
                (\<forall>e\<in>set (table_entries L t). trampoline_pc e = - 1 \<or> pc_offset < trampoline_pc e)"
  shows "find_entry_at L t pc_offset = Inr (table_entries L t ! i) \<and>
         (table_has_deopt_data t \<longrightarrow> trampoline_candidate L t pc_offset 0 (- 1) = - 1)"
proof -
  let ?es = "table_entries L t"
  have len: "length ?es = nat (table_length t)"
    by (rule length_table_entries)
  have tramp: "trampoline_pc e = - 1 \<or> pc_offset < trampoline_pc e" if e: "e \<in> set ?es" for e
  proof (cases "i + 1 = length ?es")
    case True
    with below e show ?thesis by blast
  next
    case False
    with upper il have "pc_offset < entry_pc (?es ! (i + 1))" "?es ! (i + 1) \<in> set ?es"
      by auto
    with above e show ?thesis by fastforce
  qed
  have none: "trampoline_candidate L t pc_offset 0 (- 1) = - 1"
  proof (rule trampoline_candidate_none)
    fix j :: int assume "0 \<le> j" "j < table_length t"
    then have "GetEntry L t j = ?es ! nat j" "nat j < length ?es"
      by (auto simp: GetEntry_table_entries len)
    then show "trampoline_pc (GetEntry L t j) = - 1 \<or> pc_offset < trampoline_pc (GetEntry L t j)"
      using tramp [of "?es ! nat j"] by simp
  qed
  have scan: "pc_scan L t pc_offset 0 = Inr (GetEntry L t (int i))"
  proof (rule pc_scan_finds)
    show "0 \<le> int i" "int i < table_length t"
      using il len by auto
    show "int i = table_length t - 1 \<or> pc_offset < entry_pc (GetEntry L t (int i + 1))"
    proof (cases "i + 1 = length ?es")
      case True
      then show ?thesis using len by auto
    next
      case False
      with upper il have "pc_offset < entry_pc (?es ! (i + 1))" "i + 1 < nat (table_length t)"
        by (auto simp: len)
      then show ?thesis
        using nth_table_entries [of "i + 1" t L] by (simp add: add.commute)
    qed
    fix j :: int assume j: "0 \<le> j" "j < int i"
    then have "nat j + 1 \<le> i" by auto
    then have "entry_pc (?es ! (nat j + 1)) \<le> entry_pc (?es ! i)"
      using sorted il
      by (cases "nat j + 1 = i") (auto simp: sorted_wrt_iff_nth_less less_imp_le)
    moreover have "GetEntry L t (j + 1) = ?es ! (nat j + 1)"
      using j il len GetEntry_table_entries [of "j + 1" t L] by (simp add: nat_add_distrib)
    ultimately show "entry_pc (GetEntry L t (j + 1)) \<le> pc_offset"
      using lower by simp
  qed
  have "GetEntry L t (int i) = ?es ! i"
    using il len by (simp add: nth_table_entries)
  with none scan show ?thesis
    by (simp add: find_entry_at_def)
qed

text \<open>
  Claim C2, as the code has it: in a table whose entries are strictly increasing
  by pc and whose trampolines (when present) are greater than every entry pc,
  \<^verbatim>\<open>FindEntry\<close> at a pc offset \<open>o\<close> with the pc of entry \<open>i\<close> at most \<open>o\<close>, and
  \<open>i\<close> the last entry or \<open>o\<close> below the pc of entry \<open>i + 1\<close>, returns entry \<open>i\<close>,
  provided that, when \<open>i\<close> is the last entry, \<open>o\<close> is below every trampoline
  present; the trampoline scan then selects no candidate.
\<close>

theorem FindEntry_between_pcs:
  assumes sorted: "sorted_wrt (<) (map entry_pc (table_entries L t))"
    and above: "\<forall>e\<in>set (table_entries L t). \<forall>e'\<in>set (table_entries L t).
                  trampoline_pc e \<noteq> - 1 \<longrightarrow> entry_pc e' < trampoline_pc e"
    and offset: "pc_offset_of t address = pc_offset"
    and il: "i < length (table_entries L t)"
    and lower: "entry_pc (table_entries L t ! i) \<le> pc_offset"
    and upper: "i + 1 = length (table_entries L t) \<or>
                pc_offset < entry_pc (table_entries L t ! (i + 1))"
    and below: "i + 1 = length (table_entries L t) \<longrightarrow>
                (\<forall>e\<in>set (table_entries L t). trampoline_pc e = - 1 \<or> pc_offset < trampoline_pc e)"
  shows "FindEntry L t address = Inr (table_entries L t ! i) \<and>
         (table_has_deopt_data t \<longrightarrow> trampoline_candidate L t pc_offset 0 (- 1) = - 1)"
  using find_entry_between_pcs [OF sorted above il lower upper below] offset
  by (simp add: FindEntry_def)

theorem FindEntry_between_pcs_witness:
  "table_entries spec_layout last_entry_example_table =
     [\<lparr>entry_pc = 0, deoptimization_index = 0, tagged_register_indexes = 0,
       tagged_slots = [], trampoline_pc = 100\<rparr>,
      \<lparr>entry_pc = 10, deoptimization_index = - 1, tagged_register_indexes = 0,
       tagged_slots = [], trampoline_pc = - 1\<rparr>] \<and>
   pc_offset_of last_entry_example_table (4096 + 50) = 50 \<and>
   FindEntry spec_layout last_entry_example_table (4096 + 50) =
     Inr \<lparr>entry_pc = 10, deoptimization_index = - 1, tagged_register_indexes = 0,
          tagged_slots = [], trampoline_pc = - 1\<rparr> \<and>
   trampoline_candidate spec_layout last_entry_example_table 50 0 (- 1) = - 1"
proof -
  let ?t = last_entry_example_table
  have es: "table_entries spec_layout ?t =
     [\<lparr>entry_pc = 0, deoptimization_index = 0, tagged_register_indexes = 0,
       tagged_slots = [], trampoline_pc = 100\<rparr>,
      \<lparr>entry_pc = 10, deoptimization_index = - 1, tagged_register_indexes = 0,
       tagged_slots = [], trampoline_pc = - 1\<rparr>]"
    by code_simp
  have d: "table_has_deopt_data ?t"
    by code_simp
  have p: "pc_offset_of ?t (4096 + 50) = 50"
    by code_simp
  have "FindEntry spec_layout ?t (4096 + 50) = Inr (table_entries spec_layout ?t ! 1) \<and>
      (table_has_deopt_data ?t \<longrightarrow> trampoline_candidate spec_layout ?t 50 0 (- 1) = - 1)"
    by (rule FindEntry_between_pcs [where pc_offset = 50, OF _ _ p]) (simp_all add: es)
  with es p d show ?thesis
    by simp
qed

text \<open>
  Claim C2 as stated fails at the last entry: the entries (pc 0 with the
  trampoline 100, then pc 10) are strictly increasing by pc and the trampoline is
  greater than both pcs; the offset 100 is at least the pc of the last entry, and
  \<^verbatim>\<open>FindEntry\<close> returns the first entry, through its trampoline.
\<close>

theorem FindEntry_last_entry_counterexample:
  "Emit spec_layout last_entry_example 0 =
     Inr [2, 0, 0, 0, 41, 0, 0, 0, 0, 1, 101, 10, 0, 0] \<and>
   table_entries spec_layout last_entry_example_table =
     [\<lparr>entry_pc = 0, deoptimization_index = 0, tagged_register_indexes = 0,
       tagged_slots = [], trampoline_pc = 100\<rparr>,
      \<lparr>entry_pc = 10, deoptimization_index = - 1, tagged_register_indexes = 0,
       tagged_slots = [], trampoline_pc = - 1\<rparr>] \<and>
   pc_offset_of last_entry_example_table (4096 + 100) = 100 \<and>
   FindEntry spec_layout last_entry_example_table (4096 + 100) =
     Inr \<lparr>entry_pc = 0, deoptimization_index = 0, tagged_register_indexes = 0,
          tagged_slots = [], trampoline_pc = 100\<rparr> \<and>
   FindEntry spec_layout last_entry_example_table (4096 + 100) \<noteq>
     Inr (table_entries spec_layout last_entry_example_table ! 1) \<and>
   trampoline_candidate spec_layout last_entry_example_table 100 0 (- 1) = 0"
  by code_simp

section \<open>The emitted bytes, read back\<close>

lemma holds_append: "holds m a (xs @ ys) \<longleftrightarrow> holds m a xs \<and> holds m (a + length xs) ys"
proof
  assume h: "holds m a (xs @ ys)"
  have "m (a + k) = xs ! k" if "k < length xs" for k
    using h that by (auto simp: holds_def nth_append)
  moreover have "m (a + length xs + k) = ys ! k" if "k < length ys" for k
  proof -
    have "m (a + (length xs + k)) = (xs @ ys) ! (length xs + k)"
      using h that by (auto simp: holds_def)
    then show ?thesis by (simp add: add.assoc)
  qed
  ultimately show "holds m a xs \<and> holds m (a + length xs) ys"
    by (simp add: holds_def)
next
  assume h: "holds m a xs \<and> holds m (a + length xs) ys"
  show "holds m a (xs @ ys)"
    unfolding holds_def
  proof (intro allI impI)
    fix k assume k: "k < length (xs @ ys)"
    show "m (a + k) = (xs @ ys) ! k"
    proof (cases "k < length xs")
      case True
      with h show ?thesis by (simp add: holds_def nth_append)
    next
      case False
      then have "k - length xs < length ys" using k by simp
      with h have "m (a + length xs + (k - length xs)) = ys ! (k - length xs)"
        by (simp add: holds_def)
      with False show ?thesis by (simp add: nth_append)
    qed
  qed
qed

lemma holds_Cons: "holds m a (x # xs) \<longleftrightarrow> m a = x \<and> holds m (Suc a) xs"
  using holds_append [of m a "[x]" xs] by (simp add: holds_def)

lemma holds_Nil: "holds m a []"
  by (simp add: holds_def)

lemma holds_memory_of: "holds (memory_of bytes) 0 bytes"
  by (simp add: holds_def memory_of_def)

lemma Memory_uint32_dd: "holds m a (dd w) \<Longrightarrow> Memory_uint32 m a = w"
proof -
  assume "holds m a (dd w)"
  then have m: "m a = ucast w" "m (a + 1) = ucast (drop_bit 8 w)"
    "m (a + 2) = ucast (drop_bit 16 w)" "m (a + 3) = ucast (drop_bit 24 w)"
    by (simp_all add: dd_def holds_Cons eval_nat_numeral)
  show ?thesis
    unfolding Memory_uint32_def m
  proof (rule bit_word_eqI)
    fix n assume "n < LENGTH(32)"
    then show "bit (ucast (ucast w :: byte) OR push_bit 8 (ucast (ucast (drop_bit 8 w) :: byte)) OR
        push_bit 16 (ucast (ucast (drop_bit 16 w) :: byte)) OR
        push_bit 24 (ucast (ucast (drop_bit 24 w) :: byte)) :: 32 word) n = bit w n"
      by (cases "n < 8"; cases "n < 16"; cases "n < 24") (auto simp: bit_simps)
  qed
qed

lemma length_dd: "length (dd w) = 4"
  by (simp add: dd_def)

lemma bit_valid_less: "is_valid f v \<Longrightarrow> bit v j \<Longrightarrow> j < kSize f"
proof -
  assume v: "is_valid f v" and b: "bit v j"
  then have "take_bit (kSize f) v = v"
    by (simp add: is_valid_def take_bit_int_eq_self)
  then have "bit (take_bit (kSize f) v) j" using b by simp
  then show ?thesis by (simp add: bit_take_bit_iff)
qed

lemma bit_encode:
  "is_valid f v \<Longrightarrow>
   bit (encode f v) k \<longleftrightarrow>
     kShift f \<le> k \<and> k < kShift f + kSize f \<and> k < 32 \<and> bit v (k - kShift f)"
  by (auto simp: encode_def bit_simps dest: bit_valid_less)

lemma decode_eq:
  assumes v: "is_valid f v" and fit: "kShift f + kSize f \<le> 32"
    and bits: "\<And>k. kShift f \<le> k \<Longrightarrow> k < kShift f + kSize f \<Longrightarrow> bit w k = bit v (k - kShift f)"
  shows "decode f w = v"
proof -
  have "take_bit (kSize f) (drop_bit (kShift f) w) = (word_of_int v :: 32 word)"
  proof (rule bit_word_eqI)
    fix n assume n: "n < LENGTH(32)"
    show "bit (take_bit (kSize f) (drop_bit (kShift f) w)) n = bit (word_of_int v :: 32 word) n"
    proof (cases "n < kSize f")
      case True
      then show ?thesis
        using bits [of "kShift f + n"] n by (simp add: bit_simps)
    next
      case False
      then show ?thesis
        using bit_valid_less [OF v, of n] by (auto simp: bit_simps)
    qed
  qed
  moreover have "uint (word_of_int v :: 32 word) = v"
  proof -
    have "v < 2 ^ kSize f" "0 \<le> v" using v by (simp_all add: is_valid_def)
    moreover have "(2::int) ^ kSize f \<le> 2 ^ 32"
      using fit by (intro power_increasing) auto
    ultimately have "take_bit 32 v = v"
      by (intro take_bit_int_eq_self) auto
    then show ?thesis by (simp add: uint_word_of_int_eq)
  qed
  ultimately show ?thesis by (simp add: decode_def)
qed

lemmas field_defs = HasDeoptDataField_def RegisterIndexesSizeField_def PcSizeField_def
  DeoptIndexSizeField_def TaggedSlotsBytesField_def Next_def

lemma is_valid_has_deopt: "is_valid HasDeoptDataField (if b then 1 else 0)"
  by (simp add: is_valid_def HasDeoptDataField_def)

lemma bit_entry_configuration:
  assumes "configuration_valid L c"
  shows "bit (entry_configuration L c) k \<longleftrightarrow>
     bit (encode HasDeoptDataField (if has_deopt_data c then 1 else 0)) k \<or>
     bit (encode (RegisterIndexesSizeField L) (register_indexes_size c)) k \<or>
     bit (encode (PcSizeField L) (pc_size c)) k \<or>
     bit (encode (DeoptIndexSizeField L) (deopt_index_size c)) k \<or>
     bit (encode (TaggedSlotsBytesField L) (tagged_slots_bytes c)) k"
  by (simp add: entry_configuration_def bit_or_iff)

lemma decode_has_deopt_data:
  assumes ok: "layout_ok L" and valid: "configuration_valid L c"
  shows "decode HasDeoptDataField (entry_configuration L c) = (if has_deopt_data c then 1 else 0)"
proof (rule decode_eq)
  show "is_valid HasDeoptDataField (if has_deopt_data c then 1 else 0)"
    by (rule is_valid_has_deopt)
  show "kShift HasDeoptDataField + kSize HasDeoptDataField \<le> 32"
    by (simp add: field_defs)
  fix k assume "kShift HasDeoptDataField \<le> k" "k < kShift HasDeoptDataField + kSize HasDeoptDataField"
  then show "bit (entry_configuration L c) k =
      bit (if has_deopt_data c then 1 else 0 :: int) (k - kShift HasDeoptDataField)"
    using valid
    by (simp add: bit_entry_configuration [OF valid] bit_encode is_valid_has_deopt configuration_valid_def)
       (auto simp: field_defs)
qed

lemma decode_register_indexes_size:
  assumes ok: "layout_ok L" and valid: "configuration_valid L c"
  shows "decode (RegisterIndexesSizeField L) (entry_configuration L c) = register_indexes_size c"
proof (rule decode_eq)
  show "is_valid (RegisterIndexesSizeField L) (register_indexes_size c)"
    using valid by (simp add: configuration_valid_def)
  show "kShift (RegisterIndexesSizeField L) + kSize (RegisterIndexesSizeField L) \<le> 32"
    using ok by (simp add: field_defs layout_ok_def)
  fix k assume "kShift (RegisterIndexesSizeField L) \<le> k"
    "k < kShift (RegisterIndexesSizeField L) + kSize (RegisterIndexesSizeField L)"
  then show "bit (entry_configuration L c) k =
      bit (register_indexes_size c) (k - kShift (RegisterIndexesSizeField L))"
    using valid ok
    by (simp add: bit_entry_configuration [OF valid] bit_encode is_valid_has_deopt configuration_valid_def)
       (auto simp: field_defs layout_ok_def)
qed

lemma decode_pc_size:
  assumes ok: "layout_ok L" and valid: "configuration_valid L c"
  shows "decode (PcSizeField L) (entry_configuration L c) = pc_size c"
proof (rule decode_eq)
  show "is_valid (PcSizeField L) (pc_size c)"
    using valid by (simp add: configuration_valid_def)
  show "kShift (PcSizeField L) + kSize (PcSizeField L) \<le> 32"
    using ok by (simp add: field_defs layout_ok_def)
  fix k assume "kShift (PcSizeField L) \<le> k"
    "k < kShift (PcSizeField L) + kSize (PcSizeField L)"
  then show "bit (entry_configuration L c) k =
      bit (pc_size c) (k - kShift (PcSizeField L))"
    using valid ok
    by (simp add: bit_entry_configuration [OF valid] bit_encode is_valid_has_deopt configuration_valid_def)
       (auto simp: field_defs layout_ok_def)
qed

lemma decode_deopt_index_size:
  assumes ok: "layout_ok L" and valid: "configuration_valid L c"
  shows "decode (DeoptIndexSizeField L) (entry_configuration L c) = deopt_index_size c"
proof (rule decode_eq)
  show "is_valid (DeoptIndexSizeField L) (deopt_index_size c)"
    using valid by (simp add: configuration_valid_def)
  show "kShift (DeoptIndexSizeField L) + kSize (DeoptIndexSizeField L) \<le> 32"
    using ok by (simp add: field_defs layout_ok_def)
  fix k assume "kShift (DeoptIndexSizeField L) \<le> k"
    "k < kShift (DeoptIndexSizeField L) + kSize (DeoptIndexSizeField L)"
  then show "bit (entry_configuration L c) k =
      bit (deopt_index_size c) (k - kShift (DeoptIndexSizeField L))"
    using valid ok
    by (simp add: bit_entry_configuration [OF valid] bit_encode is_valid_has_deopt configuration_valid_def)
       (auto simp: field_defs layout_ok_def)
qed

lemma decode_tagged_slots_bytes:
  assumes ok: "layout_ok L" and valid: "configuration_valid L c"
  shows "decode (TaggedSlotsBytesField L) (entry_configuration L c) = tagged_slots_bytes c"
proof (rule decode_eq)
  show "is_valid (TaggedSlotsBytesField L) (tagged_slots_bytes c)"
    using valid by (simp add: configuration_valid_def)
  show "kShift (TaggedSlotsBytesField L) + kSize (TaggedSlotsBytesField L) \<le> 32"
    using ok by (simp add: field_defs layout_ok_def)
  fix k assume "kShift (TaggedSlotsBytesField L) \<le> k"
    "k < kShift (TaggedSlotsBytesField L) + kSize (TaggedSlotsBytesField L)"
  then show "bit (entry_configuration L c) k =
      bit (tagged_slots_bytes c) (k - kShift (TaggedSlotsBytesField L))"
    using valid ok
    by (simp add: bit_entry_configuration [OF valid] bit_encode is_valid_has_deopt configuration_valid_def)
       (auto simp: field_defs layout_ok_def)
qed

lemma emit_bytes_nonpos: "n \<le> 0 \<Longrightarrow> emit_bytes v n = []"
  by (subst emit_bytes.simps) simp

lemma emit_bytes_Suc:
  "emit_bytes v (int (Suc k)) = word_of_int v # emit_bytes (v div 256) (int k)"
  by (subst emit_bytes.simps) (simp add: db_def drop_bit_eq_div)

lemma emit_bytes_0: "emit_bytes v 0 = []"
  by (simp add: emit_bytes_nonpos)

lemma length_emit_bytes_nat: "length (emit_bytes v (int k)) = k"
  by (induction k arbitrary: v) (simp_all add: emit_bytes_0 emit_bytes_Suc del: of_nat_Suc)

lemma length_emit_bytes: "length (emit_bytes v n) = nat n"
proof (cases "0 \<le> n")
  case True
  then show ?thesis using length_emit_bytes_nat [of v "nat n"] by simp
next
  case False
  then show ?thesis by (simp add: emit_bytes_nonpos)
qed

lemma read_bytes_emit_bytes_nat:
  "holds m a (emit_bytes v (int k)) \<Longrightarrow> read_bytes m a k = v mod 256 ^ k"
proof (induction k arbitrary: v a)
  case 0
  then show ?case by simp
next
  case (Suc k)
  from Suc.prems have ma: "m a = word_of_int v" and rest: "holds m (Suc a) (emit_bytes (v div 256) (int k))"
    by (simp_all add: emit_bytes_Suc holds_Cons del: of_nat_Suc)
  have "read_bytes m (Suc a) k = (v div 256) mod 256 ^ k"
    by (rule Suc.IH [OF rest])
  moreover have "uint (m a) = v mod 256"
    by (simp add: ma uint_word_of_int_eq take_bit_eq_mod)
  moreover have "v mod 256 + 256 * ((v div 256) mod 256 ^ k) = v mod 256 ^ Suc k"
    by (simp add: zmod_zmult2_eq)
  ultimately show ?case by simp
qed

lemma read_bytes_emit_bytes:
  assumes "holds m a (emit_bytes v n)" and "0 \<le> v" and "v < 256 ^ nat n"
  shows "read_bytes m a (nat n) = v"
proof (cases "0 \<le> n")
  case True
  then have "holds m a (emit_bytes v (int (nat n)))" using assms(1) by simp
  then have "read_bytes m a (nat n) = v mod 256 ^ nat n"
    by (rule read_bytes_emit_bytes_nat)
  then show ?thesis using assms(2,3) by simp
next
  case False
  then show ?thesis using assms(2,3) by simp
qed

lemma value_to_bytes_range: "0 \<le> value_to_bytes v \<and> value_to_bytes v \<le> 4"
  by (simp add: value_to_bytes_def)

lemma value_to_bytes_fits:
  "0 \<le> v \<Longrightarrow> v < 2 ^ 32 \<Longrightarrow> v < 256 ^ nat (value_to_bytes v)"
  by (simp add: value_to_bytes_def eval_nat_numeral)

lemma value_to_bytes_mono: "0 \<le> u \<Longrightarrow> u \<le> v \<Longrightarrow> value_to_bytes u \<le> value_to_bytes v"
  by (simp add: value_to_bytes_def)

lemma value_to_bytes_minimal:
  "0 \<le> v \<Longrightarrow> v < 256 ^ n \<Longrightarrow> value_to_bytes v \<le> int n"
proof -
  assume v: "0 \<le> v" "v < 256 ^ n"
  have *: "(256::int) ^ k \<le> 256 ^ n" if "k \<le> n" for k
    using that by (intro power_increasing) auto
  show ?thesis
  proof (cases "n \<ge> 4")
    case True
    then show ?thesis using value_to_bytes_range [of v] by simp
  next
    case False
    then consider "n = 0" | "n = 1" | "n = 2" | "n = 3" by linarith
    then show ?thesis
      using v by cases (auto simp: value_to_bytes_def)
  qed
qed

lemma foldl_max_eq_Max:
  "foldl (\<lambda>m e. max m (f e)) (m0::int) es = Max (insert m0 (f ` set es))"
proof (induction es arbitrary: m0)
  case Nil
  then show ?case by simp
next
  case (Cons e es)
  have "Max (insert (max m0 (f e)) (f ` set es)) = Max (insert m0 (insert (f e) (f ` set es)))"
    by (cases "es = []") (simp_all add: max.assoc)
  with Cons show ?case by simp
qed

lemma max_pc_eq_Max:
  "max_pc es = Max (insert (- 1) ((\<lambda>e. max (pc e) (trampoline e)) ` set es))"
  by (simp add: max_pc_def foldl_max_eq_Max)

lemma max_deopt_index_eq_Max:
  "max_deopt_index es = Max (insert (- 1) (deopt_index ` set es))"
  by (simp add: max_deopt_index_def foldl_max_eq_Max)

lemma max_pc_ge: "e \<in> set es \<Longrightarrow> pc e \<le> max_pc es \<and> trampoline e \<le> max_pc es"
proof -
  assume e: "e \<in> set es"
  have "max (pc e) (trampoline e) \<le> max_pc es"
    unfolding max_pc_eq_Max using e by (intro Max_ge) auto
  then show ?thesis by simp
qed

lemma max_pc_ge_m1: "- 1 \<le> max_pc es"
  unfolding max_pc_eq_Max by (intro Max_ge) auto

lemma max_pc_less:
  "- 1 < B \<Longrightarrow> \<forall>e\<in>set es. pc e < B \<and> trampoline e < B \<Longrightarrow> max_pc es < B"
  unfolding max_pc_eq_Max by (subst Max_less_iff) auto

lemma max_deopt_index_ge: "e \<in> set es \<Longrightarrow> deopt_index e \<le> max_deopt_index es"
  unfolding max_deopt_index_eq_Max by (intro Max_ge) auto

lemma max_deopt_index_ge_m1: "- 1 \<le> max_deopt_index es"
  unfolding max_deopt_index_eq_Max by (intro Max_ge) auto

lemma max_deopt_index_less:
  "- 1 < B \<Longrightarrow> \<forall>e\<in>set es. deopt_index e < B \<Longrightarrow> max_deopt_index es < B"
  unfolding max_deopt_index_eq_Max by (subst Max_less_iff) auto

lemma max_deopt_index_none:
  "max_deopt_index es = - 1 \<Longrightarrow> e \<in> set es \<Longrightarrow> - 1 \<le> deopt_index e \<Longrightarrow> deopt_index e = - 1"
  using max_deopt_index_ge [of e es] by simp

lemma foldl_or_props:
  assumes "0 \<le> u0" and "\<forall>e\<in>set es. 0 \<le> f e"
  shows "u0 \<le> foldl (\<lambda>u e. u OR f e) (u0::int) es \<and>
         (\<forall>e\<in>set es. f e \<le> foldl (\<lambda>u e. u OR f e) u0 es)"
  using assms
proof (induction es arbitrary: u0)
  case Nil
  then show ?case by simp
next
  case (Cons e es)
  have nn: "0 \<le> u0 OR f e" using Cons.prems by simp
  have le1: "u0 \<le> u0 OR f e" using Cons.prems by (simp add: or_greater_eq)
  have le2: "f e \<le> u0 OR f e"
    using Cons.prems or_greater_eq [of u0 "f e"] by (simp add: or.commute)
  from Cons.IH [OF nn] Cons.prems
  have IH: "u0 OR f e \<le> foldl (\<lambda>u e. u OR f e) (u0 OR f e) es"
    "\<forall>x\<in>set es. f x \<le> foldl (\<lambda>u e. u OR f e) (u0 OR f e) es"
    by auto
  with le1 le2 show ?case by auto
qed

lemma foldl_or_less:
  assumes "0 \<le> u0" and "u0 < 2 ^ n" and "\<forall>e\<in>set es. 0 \<le> f e \<and> f e < 2 ^ n"
  shows "foldl (\<lambda>u e. u OR f e) (u0::int) es < 2 ^ n"
  using assms
proof (induction es arbitrary: u0)
  case Nil
  then show ?case by simp
next
  case (Cons e es)
  have "0 \<le> u0 OR f e" "u0 OR f e < 2 ^ n"
    using Cons.prems by (auto intro: OR_upper)
  with Cons.IH [of "u0 OR f e"] Cons.prems show ?case by simp
qed

lemma used_register_indexes_ge:
  "\<forall>e\<in>set es. 0 \<le> register_indexes e \<Longrightarrow>
   0 \<le> used_register_indexes es \<and> (\<forall>e\<in>set es. register_indexes e \<le> used_register_indexes es)"
  using foldl_or_props [of 0 es register_indexes] by (simp add: used_register_indexes_def)

lemma used_register_indexes_less:
  "\<forall>e\<in>set es. 0 \<le> register_indexes e \<and> register_indexes e < 2 ^ n \<Longrightarrow>
   used_register_indexes es < 2 ^ n"
  using foldl_or_less [of 0 n es register_indexes] by (simp add: used_register_indexes_def)

lemma int_and_7: "(i::int) AND 7 = i mod 8"
proof -
  have "i AND mask 3 = take_bit 3 i" by (simp add: take_bit_eq_mask)
  moreover have "(mask 3 :: int) = 7" by (simp add: mask_eq_exp_minus_1)
  ultimately show ?thesis by (simp add: take_bit_eq_mod)
qed

lemma build_bitmap_Cons:
  "build_bitmap sz bits (idx # idxs) =
     (if 0 \<le> sz - 1 - idx \<and> sz - 1 - idx < 8 * int (length bits)
      then build_bitmap sz
             (bits[nat ((sz - 1 - idx) div 8) :=
                bits ! nat ((sz - 1 - idx) div 8) OR push_bit (nat ((sz - 1 - idx) mod 8)) 1])
             idxs
      else Inl OutOfBounds)"
proof -
  have "0 \<le> (sz - 1 - idx) div 8 \<and> (sz - 1 - idx) div 8 < int (length bits) \<longleftrightarrow>
      0 \<le> sz - 1 - idx \<and> sz - 1 - idx < 8 * int (length bits)"
    by auto
  then show ?thesis
    by (simp add: Let_def kBitsPerByteLog2_def kBitsPerByte_def drop_bit_eq_div int_and_7)
qed

lemma bitmap_bit_update:
  assumes p: "0 \<le> p" "p < 8 * int (length bits)" and q: "0 \<le> q" "q < 8 * int (length bits)"
  shows "bitmap_bit (bits[nat (q div 8) := bits ! nat (q div 8) OR push_bit (nat (q mod 8)) 1]) p
     \<longleftrightarrow> bitmap_bit bits p \<or> p = q"
proof -
  have lq: "nat (q div 8) < length bits" using q by auto
  have m8: "nat (q mod 8) < 8" "nat (p mod 8) < 8" by auto
  show ?thesis
  proof (cases "p div 8 = q div 8")
    case True
    have "p = q \<longleftrightarrow> p mod 8 = q mod 8"
      using True by (metis mult_div_mod_eq)
    moreover have "nat (p mod 8) = nat (q mod 8) \<longleftrightarrow> p mod 8 = q mod 8"
      by auto
    ultimately show ?thesis
      using True lq m8 by (auto simp: bitmap_bit_def bit_simps)
  next
    case False
    then have "nat (p div 8) \<noteq> nat (q div 8)" using p q by auto
    moreover have "p \<noteq> q" using False by auto
    ultimately show ?thesis by (simp add: bitmap_bit_def)
  qed
qed

lemma build_bitmap_ok:
  assumes "\<forall>idx\<in>set idxs. 0 \<le> sz - 1 - idx \<and> sz - 1 - idx < 8 * int (length bits)"
  shows "\<exists>bits'. build_bitmap sz bits idxs = Inr bits' \<and> length bits' = length bits \<and>
     (\<forall>p. 0 \<le> p \<and> p < 8 * int (length bits) \<longrightarrow>
        (bitmap_bit bits' p \<longleftrightarrow> bitmap_bit bits p \<or> (\<exists>idx\<in>set idxs. sz - 1 - idx = p)))"
  using assms
proof (induction idxs arbitrary: bits)
  case Nil
  then show ?case by simp
next
  case (Cons idx idxs)
  let ?q = "sz - 1 - idx"
  let ?bits1 = "bits[nat (?q div 8) := bits ! nat (?q div 8) OR push_bit (nat (?q mod 8)) 1]"
  have q: "0 \<le> ?q" "?q < 8 * int (length bits)" using Cons.prems by auto
  have "\<forall>idx\<in>set idxs. 0 \<le> sz - 1 - idx \<and> sz - 1 - idx < 8 * int (length ?bits1)"
    using Cons.prems by simp
  from Cons.IH [OF this] obtain bits' where
    b: "build_bitmap sz ?bits1 idxs = Inr bits'" "length bits' = length bits"
    and bits: "\<And>p. 0 \<le> p \<Longrightarrow> p < 8 * int (length bits) \<Longrightarrow>
        bitmap_bit bits' p \<longleftrightarrow> bitmap_bit ?bits1 p \<or> (\<exists>idx\<in>set idxs. sz - 1 - idx = p)"
    by auto
  have "build_bitmap sz bits (idx # idxs) = Inr bits'"
    using q b(1) by (simp only: build_bitmap_Cons if_True simp_thms)
  moreover have "bitmap_bit bits' p \<longleftrightarrow>
      bitmap_bit bits p \<or> (\<exists>i\<in>set (idx # idxs). sz - 1 - i = p)"
    if "0 \<le> p" "p < 8 * int (length bits)" for p
    using bits [OF that] bitmap_bit_update [OF that q] by auto
  ultimately show ?case using b(2) by blast
qed

lemma build_bitmap_length:
  "build_bitmap sz bits idxs = Inr bits' \<Longrightarrow> length bits' = length bits"
proof (induction idxs arbitrary: bits)
  case Nil
  then show ?case by simp
next
  case (Cons idx idxs)
  then show ?case
    by (simp only: build_bitmap_Cons split: if_splits) (fastforce+)
qed

lemma holds_concat_nth:
  "holds m a (concat (map f es)) \<Longrightarrow> \<forall>e\<in>set es. length (f e) = n \<Longrightarrow> i < length es \<Longrightarrow>
   holds m (a + i * n) (f (es ! i))"
proof (induction es arbitrary: a i)
  case Nil
  then show ?case by simp
next
  case (Cons e es)
  from Cons.prems(1) have h: "holds m a (f e)" "holds m (a + n) (concat (map f es))"
    using Cons.prems(2) by (simp_all add: holds_append)
  show ?case
  proof (cases i)
    case 0
    with h show ?thesis by simp
  next
    case (Suc j)
    then have "holds m (a + n + j * n) (f (es ! j))"
      using Cons.IH [OF h(2), of j] Cons.prems by simp
    with Suc show ?thesis by (simp add: add.assoc add.commute)
  qed
qed

lemma length_concat_uniform:
  "\<forall>e\<in>set es. length (f e) = n \<Longrightarrow> length (concat (map f es)) = length es * n"
  by (induction es) simp_all

lemma emit_bitmaps_Inr:
  "emit_bitmaps sz nbytes es = Inr bitmaps \<Longrightarrow>
   bitmaps = concat (map (entry_bitmap sz nbytes) es) \<and>
   (\<forall>e\<in>set es. build_bitmap sz (replicate (nat nbytes) 0) (stack_indexes e) =
        Inr (entry_bitmap sz nbytes e))"
proof (induction es arbitrary: bitmaps)
  case Nil
  then show ?case by simp
next
  case (Cons e es)
  then show ?case
    by (auto simp: entry_bitmap_def split: sum.splits)
qed

lemma length_entry_bitmap:
  "build_bitmap sz (replicate (nat nbytes) 0) (stack_indexes e) = Inr (entry_bitmap sz nbytes e) \<Longrightarrow>
   length (entry_bitmap sz nbytes e) = nat nbytes"
  using build_bitmap_length [of sz "replicate (nat nbytes) 0" "stack_indexes e"] by simp

lemma emit_bitmaps_ok:
  "\<forall>e\<in>set es. \<forall>idx\<in>set (stack_indexes e). 0 \<le> sz - 1 - idx \<and> sz - 1 - idx < 8 * int (nat nbytes) \<Longrightarrow>
   \<exists>bitmaps. emit_bitmaps sz nbytes es = Inr bitmaps"
proof (induction es)
  case Nil
  then show ?case by simp
next
  case (Cons e es)
  have "\<forall>idx\<in>set (stack_indexes e). 0 \<le> sz - 1 - idx \<and>
      sz - 1 - idx < 8 * int (length (replicate (nat nbytes) (0::byte)))"
    using Cons.prems by simp
  from build_bitmap_ok [OF this] obtain bits where
    "build_bitmap sz (replicate (nat nbytes) 0) (stack_indexes e) = Inr bits" by blast
  moreover from Cons obtain bitmaps where "emit_bitmaps sz nbytes es = Inr bitmaps" by auto
  ultimately show ?case by simp
qed

lemma length_emit_entry:
  "length (emit_entry c e) =
     nat (pc_size c) +
     (if has_deopt_data c then nat (deopt_index_size c) + nat (pc_size c) else 0) +
     nat (register_indexes_size c)"
  by (simp add: emit_entry_def length_emit_bytes)

lemma holds_map: "holds m s xs \<Longrightarrow> map m [s ..< s + length xs] = xs"
  by (rule nth_equalityI) (simp_all add: holds_def)

lemma emit_table_Inr:
  assumes "emit_table L es sz = Inr bytes"
  shows "configuration_valid L (derive_configuration es sz) \<and>
     emit_bitmaps sz (tagged_slots_bytes (derive_configuration es sz)) es =
       Inr (concat (map (entry_bitmap sz (tagged_slots_bytes (derive_configuration es sz))) es)) \<and>
     bytes = dd (word_of_int (int (length es))) @
       dd (entry_configuration L (derive_configuration es sz)) @
       concat (map (emit_entry (derive_configuration es sz)) es) @
       concat (map (entry_bitmap sz (tagged_slots_bytes (derive_configuration es sz))) es)"
proof -
  let ?c = "derive_configuration es sz"
  from assms have valid: "configuration_valid L ?c"
    by (auto simp: emit_table_def Let_def split: if_splits)
  with assms obtain bitmaps where
    bm: "emit_bitmaps sz (tagged_slots_bytes ?c) es = Inr bitmaps"
    and bytes: "bytes = dd (word_of_int (int (length es))) @ dd (entry_configuration L ?c) @
       concat (map (emit_entry ?c) es) @ bitmaps"
    by (auto simp: emit_table_def Let_def split: if_splits sum.splits)
  from emit_bitmaps_Inr [OF bm]
  have "bitmaps = concat (map (entry_bitmap sz (tagged_slots_bytes ?c)) es)" by simp
  with valid bm bytes show ?thesis by simp
qed

lemma sint_word_of_int_32: "0 \<le> n \<Longrightarrow> n < 2 ^ 31 \<Longrightarrow> sint (word_of_int n :: 32 word) = n"
  by (simp add: sint_sbintrunc' signed_take_bit_int_eq_self)

lemma emit_table_readback:
  assumes ok: "layout_ok L"
    and emit: "emit_table L es sz = Inr bytes"
    and mem: "holds m 0 bytes"
    and rng: "int_ranges es"
  shows "table_length (SafepointTable_at start m) = int (length es)"
    and "table_entry_configuration (SafepointTable_at start m) =
           entry_configuration L (derive_configuration es sz)"
proof -
  let ?c = "derive_configuration es sz"
  let ?t = "SafepointTable_at start m"
  from emit_table_Inr [OF emit] have
    bytes: "bytes = dd (word_of_int (int (length es))) @ dd (entry_configuration L ?c) @
       concat (map (emit_entry ?c) es) @
       concat (map (entry_bitmap sz (tagged_slots_bytes ?c)) es)"
    by simp
  from mem have h0: "holds m 0 (dd (word_of_int (int (length es))))"
    and h4: "holds m 4 (dd (entry_configuration L ?c))"
    unfolding bytes by (simp_all add: holds_append length_dd)
  have "Memory_uint32 m 0 = word_of_int (int (length es))"
    by (rule Memory_uint32_dd [OF h0])
  moreover have "sint (word_of_int (int (length es)) :: 32 word) = int (length es)"
    using rng by (intro sint_word_of_int_32) (auto simp: int_ranges_def)
  ultimately show "table_length ?t = int (length es)"
    by (simp add: SafepointTable_at_def Memory_int_def kLengthOffset_def)
  show "table_entry_configuration ?t = entry_configuration L ?c"
    using Memory_uint32_dd [OF h4]
    by (simp add: SafepointTable_at_def kEntryConfigurationOffset_def)
qed

lemma table_sizes:
  assumes ok: "layout_ok L"
    and valid: "configuration_valid L c"
    and cfg: "table_entry_configuration t = entry_configuration L c"
  shows "table_has_deopt_data t = has_deopt_data c"
    and "table_register_indexes_size L t = nat (register_indexes_size c)"
    and "table_pc_size L t = nat (pc_size c)"
    and "table_deopt_index_size L t = nat (deopt_index_size c)"
    and "table_tagged_slots_bytes L t = nat (tagged_slots_bytes c)"
    and "entry_size L t = length (emit_entry c e)"
proof -
  show 1: "table_has_deopt_data t = has_deopt_data c"
    by (simp add: table_has_deopt_data_def cfg decode_has_deopt_data [OF ok valid])
  show 2: "table_register_indexes_size L t = nat (register_indexes_size c)"
    by (simp add: table_register_indexes_size_def cfg decode_register_indexes_size [OF ok valid])
  show 3: "table_pc_size L t = nat (pc_size c)"
    by (simp add: table_pc_size_def cfg decode_pc_size [OF ok valid])
  show 4: "table_deopt_index_size L t = nat (deopt_index_size c)"
    by (simp add: table_deopt_index_size_def cfg decode_deopt_index_size [OF ok valid])
  show "table_tagged_slots_bytes L t = nat (tagged_slots_bytes c)"
    by (simp add: table_tagged_slots_bytes_def cfg decode_tagged_slots_bytes [OF ok valid])
  show "entry_size L t = length (emit_entry c e)"
    by (simp add: entry_size_def 1 2 3 4 length_emit_entry)
qed

lemma field_bounds:
  assumes rng: "int_ranges es" and e: "e \<in> set es"
  shows "0 \<le> pc e \<and> pc e < 256 ^ nat (pc_size (derive_configuration es sz))"
    and "0 \<le> trampoline e + 1 \<and> trampoline e + 1 < 256 ^ nat (pc_size (derive_configuration es sz))"
    and "0 \<le> deopt_index e + 1 \<and>
         deopt_index e + 1 < 256 ^ nat (deopt_index_size (derive_configuration es sz))"
    and "0 \<le> register_indexes e \<and>
         register_indexes e < 256 ^ nat (register_indexes_size (derive_configuration es sz))"
proof -
  from rng e have r: "0 \<le> pc e" "- 1 \<le> trampoline e" "- 1 \<le> deopt_index e"
    "0 \<le> register_indexes e"
    by (auto simp: int_ranges_def)
  have all: "\<forall>e\<in>set es. pc e < 2 ^ 31 - 1 \<and> trampoline e < 2 ^ 31 - 1"
    "\<forall>e\<in>set es. deopt_index e < 2 ^ 31 - 1"
    "\<forall>e\<in>set es. 0 \<le> register_indexes e \<and> register_indexes e < 2 ^ 31"
    using rng by (auto simp: int_ranges_def)
  have mp: "0 \<le> max_pc es + 1" "max_pc es + 1 < 2 ^ 32"
    using max_pc_ge_m1 [of es] max_pc_less [OF _ all(1)] by auto
  have md: "0 \<le> max_deopt_index es + 1" "max_deopt_index es + 1 < 2 ^ 32"
    using max_deopt_index_ge_m1 [of es] max_deopt_index_less [OF _ all(2)] by auto
  have ur: "0 \<le> used_register_indexes es" "used_register_indexes es < 2 ^ 32"
    "register_indexes e \<le> used_register_indexes es"
    using used_register_indexes_ge [of es] used_register_indexes_less [OF all(3)] all(3) e
    by auto
  have "max_pc es + 1 < 256 ^ nat (value_to_bytes (max_pc es + 1))"
    by (rule value_to_bytes_fits [OF mp])
  with max_pc_ge [OF e] r
  show "0 \<le> pc e \<and> pc e < 256 ^ nat (pc_size (derive_configuration es sz))"
    and "0 \<le> trampoline e + 1 \<and> trampoline e + 1 < 256 ^ nat (pc_size (derive_configuration es sz))"
    by (simp_all add: derive_configuration_def)
  have "max_deopt_index es + 1 < 256 ^ nat (value_to_bytes (max_deopt_index es + 1))"
    by (rule value_to_bytes_fits [OF md])
  with max_deopt_index_ge [OF e] r
  show "0 \<le> deopt_index e + 1 \<and>
         deopt_index e + 1 < 256 ^ nat (deopt_index_size (derive_configuration es sz))"
    by (simp add: derive_configuration_def)
  have "used_register_indexes es < 256 ^ nat (value_to_bytes (used_register_indexes es))"
    by (rule value_to_bytes_fits [OF ur(1,2)])
  with ur(3) r
  show "0 \<le> register_indexes e \<and>
         register_indexes e < 256 ^ nat (register_indexes_size (derive_configuration es sz))"
    by (simp add: derive_configuration_def)
qed

lemma GetEntry_readback:
  assumes ok: "layout_ok L"
    and emit: "emit_table L es sz = Inr bytes"
    and mem: "holds m 0 bytes"
    and rng: "int_ranges es"
    and i: "i < length es"
  shows "GetEntry L (SafepointTable_at start m) (int i) =
     \<lparr>entry_pc = pc (es ! i),
      deoptimization_index =
        (if has_deopt_data (derive_configuration es sz) then deopt_index (es ! i) else - 1),
      tagged_register_indexes = register_indexes (es ! i),
      tagged_slots = entry_bitmap sz (tagged_slots_bytes (derive_configuration es sz)) (es ! i),
      trampoline_pc =
        (if has_deopt_data (derive_configuration es sz) then trampoline (es ! i) else - 1)\<rparr>"
proof -
  let ?c = "derive_configuration es sz"
  let ?t = "SafepointTable_at start m"
  let ?e = "es ! i"
  let ?psz = "nat (pc_size ?c)" and ?dsz = "nat (deopt_index_size ?c)"
  let ?rsz = "nat (register_indexes_size ?c)" and ?nb = "nat (tagged_slots_bytes ?c)"
  from emit_table_Inr [OF emit] have
    valid: "configuration_valid L ?c"
    and bm: "emit_bitmaps sz (tagged_slots_bytes ?c) es =
       Inr (concat (map (entry_bitmap sz (tagged_slots_bytes ?c)) es))"
    and bytes: "bytes = dd (word_of_int (int (length es))) @ dd (entry_configuration L ?c) @
       concat (map (emit_entry ?c) es) @
       concat (map (entry_bitmap sz (tagged_slots_bytes ?c)) es)"
    by simp_all
  have len: "table_length ?t = int (length es)"
    and cfg: "table_entry_configuration ?t = entry_configuration L ?c"
    by (rule emit_table_readback [OF ok emit mem rng])+
  note sizes = table_sizes [OF ok valid cfg]
  define n where "n = entry_size L ?t"
  have n: "\<forall>e\<in>set es. length (emit_entry ?c e) = n"
    using sizes(6) by (simp add: n_def)
  have tm: "table_memory ?t = m"
    by (simp add: SafepointTable_at_def)
  from mem have hrec: "holds m 8 (concat (map (emit_entry ?c) es))"
    and hbm: "holds m (8 + length es * n) (concat (map (entry_bitmap sz (tagged_slots_bytes ?c)) es))"
    unfolding bytes by (simp_all add: holds_append length_dd length_concat_uniform [OF n])
  have he: "holds m (8 + i * n) (emit_entry ?c ?e)"
    by (rule holds_concat_nth [OF hrec n i])
  have nb: "\<forall>e\<in>set es. length (entry_bitmap sz (tagged_slots_bytes ?c) e) = ?nb"
    using emit_bitmaps_Inr [OF bm] by (auto intro: length_entry_bitmap)
  have hb: "holds m (8 + length es * n + i * ?nb) (entry_bitmap sz (tagged_slots_bytes ?c) ?e)"
    by (rule holds_concat_nth [OF hbm nb i])
  have ein: "?e \<in> set es" using i by simp
  note fb = field_bounds [OF rng ein, of sz]
  have slots: "map m [8 + length es * n + i * ?nb ..< 8 + length es * n + i * ?nb + ?nb] =
      entry_bitmap sz (tagged_slots_bytes ?c) ?e"
    using holds_map [OF hb] nb ein by simp
  have hpc: "holds m (8 + i * n) (emit_bytes (pc ?e) (pc_size ?c))"
    using he by (simp add: emit_entry_def holds_append)
  have pc: "read_bytes m (8 + i * n) ?psz = pc ?e"
    using read_bytes_emit_bytes [OF hpc] fb(1) by simp
  show ?thesis
  proof (cases "has_deopt_data ?c")
    case True
    from he True have hd: "holds m (8 + i * n + ?psz) (emit_bytes (deopt_index ?e + 1) (deopt_index_size ?c))"
      and ht: "holds m (8 + i * n + ?psz + ?dsz) (emit_bytes (trampoline ?e + 1) (pc_size ?c))"
      and hr: "holds m (8 + i * n + ?psz + ?dsz + ?psz) (emit_bytes (register_indexes ?e) (register_indexes_size ?c))"
      by (simp_all add: emit_entry_def holds_append length_emit_bytes add.assoc)
    have "read_bytes m (8 + i * n + ?psz) ?dsz = deopt_index ?e + 1"
      using read_bytes_emit_bytes [OF hd] fb(3) by simp
    moreover have "read_bytes m (8 + i * n + ?psz + ?dsz) ?psz = trampoline ?e + 1"
      using read_bytes_emit_bytes [OF ht] fb(2) by simp
    moreover have "read_bytes m (8 + i * n + ?psz + ?dsz + ?psz) ?rsz = register_indexes ?e"
      using read_bytes_emit_bytes [OF hr] fb(4) by simp
    ultimately show ?thesis
      using True pc slots
      by (simp add: GetEntry_def Let_def tm len sizes(1-5) kHeaderSize_def n_def [symmetric])
  next
    case False
    from he False have
      hr: "holds m (8 + i * n + ?psz) (emit_bytes (register_indexes ?e) (register_indexes_size ?c))"
      by (simp_all add: emit_entry_def holds_append length_emit_bytes add.assoc)
    have "read_bytes m (8 + i * n + ?psz) ?rsz = register_indexes ?e"
      using read_bytes_emit_bytes [OF hr] fb(4) by simp
    then show ?thesis
      using False pc slots
      by (simp add: GetEntry_def Let_def tm len sizes(1-5) kHeaderSize_def n_def [symmetric]
          kNoDeoptIndex_def kNoTrampolinePC_def)
  qed
qed

section \<open>Properties of \<^verbatim>\<open>TrimEntries\<close>\<close>

lemma Min_insert_ge:
  assumes "finite S" and "m \<le> (x::int)"
  shows "Min (insert m (insert x S)) = Min (insert m S)"
proof (rule Min_eqI)
  show "finite (insert m (insert x S))" using assms by simp
  show "Min (insert m S) \<in> insert m (insert x S)"
    using Min_in [of "insert m S"] assms by auto
  fix y assume y: "y \<in> insert m (insert x S)"
  have "Min (insert m S) \<le> m" using assms by simp
  moreover have "Min (insert m S) \<le> z" if "z \<in> S" for z using assms that by simp
  ultimately show "Min (insert m S) \<le> y" using y assms(2) by auto
qed

lemma Min_insert_less:
  assumes "finite S" and "x \<le> (m::int)"
  shows "Min (insert m (insert x S)) = Min (insert x S)"
  using Min_insert_ge [OF assms] by (simp add: insert_commute)

lemma Min_insert_Min:
  assumes "finite A" and "finite B"
  shows "Min (insert (Min (insert m A)) B) = Min (insert (m::int) (A \<union> B))"
proof (rule Min_eqI [symmetric])
  let ?x = "Min (insert (Min (insert m A)) B)"
  show "finite (insert m (A \<union> B))" using assms by simp
  have in1: "?x \<in> insert (Min (insert m A)) B"
    using assms by (intro Min_in) auto
  moreover have "Min (insert m A) \<in> insert m A"
    using assms by (intro Min_in) auto
  ultimately show "?x \<in> insert m (A \<union> B)" by auto
  fix y assume y: "y \<in> insert m (A \<union> B)"
  have le1: "?x \<le> Min (insert m A)"
    using assms by (intro Min_le) auto
  have "?x \<le> z" if "z \<in> insert m A" for z
  proof -
    have "Min (insert m A) \<le> z" using assms that by (intro Min_le) auto
    with le1 show ?thesis by (rule order_trans)
  qed
  moreover have "?x \<le> z" if "z \<in> B" for z
    using assms that by (intro Min_le) auto
  ultimately show "?x \<le> y" using y by auto
qed

lemma trim_scan_indexes_eq:
  "0 < m \<Longrightarrow> \<forall>idx\<in>set idxs. 0 \<le> idx \<Longrightarrow>
   trim_scan_indexes m idxs =
     (if 0 \<in> set idxs then None else Some (Min (insert m (set idxs))))"
proof (induction idxs arbitrary: m)
  case Nil
  then show ?case by simp
next
  case (Cons idx idxs)
  show ?case
  proof (cases "idx \<ge> m")
    case True
    then have "Min (insert m (set (idx # idxs))) = Min (insert m (set idxs))"
      using Min_insert_ge [of "set idxs" m idx] by simp
    moreover have "idx \<noteq> 0" using True Cons.prems(1) by simp
    ultimately show ?thesis using True Cons by simp
  next
    case False
    show ?thesis
    proof (cases "idx = 0")
      case True
      with False show ?thesis by simp
    next
      case nz: False
      then have pos: "0 < idx" using Cons.prems by auto
      have "Min (insert m (set (idx # idxs))) = Min (insert idx (set idxs))"
        using False Min_insert_less [of "set idxs" idx m] by simp
      with False nz Cons.IH [OF pos] Cons.prems show ?thesis by simp
    qed
  qed
qed

lemma trim_scan_eq:
  "0 < m \<Longrightarrow> \<forall>idx\<in>set (referenced_indexes es). 0 \<le> idx \<Longrightarrow>
   trim_scan m es =
     (if 0 \<in> set (referenced_indexes es) then None
      else Some (Min (insert m (set (referenced_indexes es)))))"
proof (induction es arbitrary: m)
  case Nil
  then show ?case by (simp add: referenced_indexes_def)
next
  case (Cons e es)
  have nn: "\<forall>idx\<in>set (stack_indexes e). 0 \<le> idx" "\<forall>idx\<in>set (referenced_indexes es). 0 \<le> idx"
    using Cons.prems by (auto simp: referenced_indexes_def)
  note first = trim_scan_indexes_eq [OF Cons.prems(1) nn(1)]
  show ?case
  proof (cases "0 \<in> set (stack_indexes e)")
    case True
    with first show ?thesis by (simp add: referenced_indexes_def)
  next
    case False
    let ?m' = "Min (insert m (set (stack_indexes e)))"
    have pos: "0 < ?m'"
      using Cons.prems(1) nn(1) False
      by (subst Min_gr_iff) (auto simp: order_less_le)
    have "Min (insert ?m' (set (referenced_indexes es))) =
        Min (insert m (set (referenced_indexes (e # es))))"
      using Min_insert_Min [of "set (stack_indexes e)" "set (referenced_indexes es)" m]
      by (simp add: referenced_indexes_def)
    with False first Cons.IH [OF pos nn(2)] show ?thesis
      by (auto simp: referenced_indexes_def)
  qed
qed

lemma shift_indexes_no_slots: "stack_indexes e = [] \<Longrightarrow> shift_indexes m e = e"
  by (simp add: shift_indexes_def)

lemma set_collapse_runs: "set (collapse_runs es) \<subseteq> set es"
  by (induction es rule: collapse_runs.induct) auto

lemma set_RemoveDuplicates: "set (RemoveDuplicates es) \<subseteq> set es"
  by (simp add: RemoveDuplicates_collapse set_collapse_runs)

lemma trim_scan_no_slots: "\<forall>e\<in>set es. stack_indexes e = [] \<Longrightarrow> trim_scan m es = Some m"
  by (induction es) simp_all

lemma map_shift_no_slots:
  "\<forall>e\<in>set es. stack_indexes e = [] \<Longrightarrow> map (shift_indexes m) es = es"
  by (induction es) (simp_all add: shift_indexes_no_slots)

lemma TrimEntries_no_slots:
  "\<forall>e\<in>set es. stack_indexes e = [] \<Longrightarrow> TrimEntries es sz = (es, 0)"
  by (simp add: TrimEntries_def trim_scan_no_slots map_shift_no_slots)

lemma referenced_indexes_Nil_iff:
  "referenced_indexes es = [] \<longleftrightarrow> (\<forall>e\<in>set es. stack_indexes e = [])"
  by (simp add: referenced_indexes_def)

lemma TrimEntries_eq:
  assumes "slots_in_region es sz"
  shows "TrimEntries es sz =
     (if referenced_indexes es = [] then (es, 0)
      else if Min (set (referenced_indexes es)) = 0 then (es, sz)
      else (map (shift_indexes (Min (set (referenced_indexes es)))) es,
            sz - Min (set (referenced_indexes es))))"
proof (cases "referenced_indexes es = []")
  case True
  then show ?thesis
    by (simp add: TrimEntries_no_slots referenced_indexes_Nil_iff)
next
  case False
  let ?S = "set (referenced_indexes es)"
  have fin: "finite ?S" "?S \<noteq> {}" using False by simp_all
  have rng: "\<forall>idx\<in>?S. 0 \<le> idx \<and> idx < sz"
    using assms by (simp add: slots_in_region_def)
  have minS: "Min ?S \<in> ?S" using fin by (rule Min_in)
  then have pos: "0 < sz" using rng by force
  have zero: "0 \<in> ?S \<longleftrightarrow> Min ?S = 0"
  proof
    assume "0 \<in> ?S"
    then have "Min ?S \<le> 0" using fin by simp
    moreover have "0 \<le> Min ?S" using rng minS by blast
    ultimately show "Min ?S = 0" by simp
  next
    assume "Min ?S = 0"
    with minS show "0 \<in> ?S" by simp
  qed
  have "Min (insert sz ?S) = Min ?S"
  proof (rule Min_eqI)
    show "finite (insert sz ?S)" by simp
    show "Min ?S \<in> insert sz ?S" using minS by simp
    fix y assume "y \<in> insert sz ?S"
    moreover have "Min ?S \<le> sz" using rng minS by force
    ultimately show "Min ?S \<le> y" using fin by auto
  qed
  moreover have "trim_scan sz es =
      (if 0 \<in> ?S then None else Some (Min (insert sz ?S)))"
    using rng by (intro trim_scan_eq [OF pos]) simp
  ultimately show ?thesis
    using False pos zero by (simp add: TrimEntries_def)
qed

lemma table_entry_configuration_readback:
  assumes emit: "emit_table L es sz = Inr bytes"
    and mem: "holds m 0 bytes"
  shows "table_entry_configuration (SafepointTable_at start m) =
           entry_configuration L (derive_configuration es sz)"
proof -
  let ?c = "derive_configuration es sz"
  from emit_table_Inr [OF emit] have
    bytes: "bytes = dd (word_of_int (int (length es))) @ dd (entry_configuration L ?c) @
       concat (map (emit_entry ?c) es) @
       concat (map (entry_bitmap sz (tagged_slots_bytes ?c)) es)"
    by simp
  from mem have h4: "holds m 4 (dd (entry_configuration L ?c))"
    unfolding bytes by (simp_all add: holds_append length_dd)
  show ?thesis
    using Memory_uint32_dd [OF h4]
    by (simp add: SafepointTable_at_def kEntryConfigurationOffset_def)
qed

lemma emit_bitmaps_no_slots:
  "\<forall>e\<in>set es. stack_indexes e = [] \<Longrightarrow>
   emit_bitmaps sz nbytes es = Inr (replicate (length es * nat nbytes) 0)"
  by (induction es) (simp_all add: replicate_add)

text \<open>
  Claim C10: when \<^verbatim>\<open>tagged_slots_size\<close> is positive and no entry references a stack
  slot, \<^verbatim>\<open>TrimEntries\<close> leaves the entries as they are and the size 0; the
  configuration has \<open>tagged_slots_bytes = 0\<close>, the emitted bytes are the header and
  the entry records with no bitmap byte behind them (or \<^verbatim>\<open>Emit\<close> stops at its
  \<^verbatim>\<open>CHECK\<close>), and the reader decodes the bitmap byte count 0.
\<close>

theorem Emit_no_slots:
  assumes pos: "0 < sz" and none: "\<forall>e\<in>set es. stack_indexes e = []"
  shows "TrimEntries (RemoveDuplicates es) sz = (RemoveDuplicates es, 0) \<and>
     tagged_slots_bytes (derive_configuration (RemoveDuplicates es) 0) = 0 \<and>
     (if configuration_valid L (derive_configuration (RemoveDuplicates es) 0)
      then Emit L es sz =
           Inr (dd (word_of_int (int (length (RemoveDuplicates es)))) @
                dd (entry_configuration L (derive_configuration (RemoveDuplicates es) 0)) @
                concat (map (emit_entry (derive_configuration (RemoveDuplicates es) 0))
                         (RemoveDuplicates es)))
      else Emit L es sz = Inl CheckFailed) \<and>
     (\<forall>bytes m. layout_ok L \<and> Emit L es sz = Inr bytes \<and> holds m 0 bytes \<longrightarrow>
        table_tagged_slots_bytes L (SafepointTable_at start m) = 0)"
proof -
  let ?es = "RemoveDuplicates es"
  let ?c = "derive_configuration ?es 0"
  have none': "\<forall>e\<in>set ?es. stack_indexes e = []"
    using none set_RemoveDuplicates [of es] by blast
  have trim: "TrimEntries ?es sz = (?es, 0)"
    by (rule TrimEntries_no_slots [OF none'])
  have nb: "tagged_slots_bytes ?c = 0"
    by (simp add: derive_configuration_def kBitsPerByte_def sdiv_int_numeral_numeral)
  have emit: "Emit L es sz = emit_table L ?es 0"
    by (simp add: Emit_def trim)
  have bm: "emit_bitmaps 0 (tagged_slots_bytes ?c) ?es = Inr []"
    using emit_bitmaps_no_slots [OF none', of 0 "tagged_slots_bytes ?c"] nb by simp
  have out: "if configuration_valid L ?c
      then Emit L es sz =
           Inr (dd (word_of_int (int (length ?es))) @ dd (entry_configuration L ?c) @
                concat (map (emit_entry ?c) ?es))
      else Emit L es sz = Inl CheckFailed"
    using bm by (simp add: emit emit_table_def Let_def)
  have "table_tagged_slots_bytes L (SafepointTable_at start m) = 0"
    if "layout_ok L" "Emit L es sz = Inr bytes" "holds m 0 bytes" for bytes m
  proof -
    from that(2) have e: "emit_table L ?es 0 = Inr bytes" by (simp add: emit)
    have valid: "configuration_valid L ?c"
      using emit_table_Inr [OF e] by simp
    have "table_entry_configuration (SafepointTable_at start m) = entry_configuration L ?c"
      by (rule table_entry_configuration_readback [OF e that(3)])
    from table_sizes(5) [OF that(1) valid this] nb show ?thesis by simp
  qed
  with trim nb out show ?thesis by blast
qed

theorem Emit_no_slots_witness:
  "TrimEntries (RemoveDuplicates no_slots_example) 5 = (no_slots_example, 0) \<and>
   Emit spec_layout no_slots_example 5 = Inr [2, 0, 0, 0, 10, 0, 0, 0, 0, 0, 4, 1] \<and>
   table_tagged_slots_bytes spec_layout
     (SafepointTable_at 4096 (memory_of [2, 0, 0, 0, 10, 0, 0, 0, 0, 0, 4, 1])) = 0 \<and>
   tagged_slots (GetEntry spec_layout
     (SafepointTable_at 4096 (memory_of [2, 0, 0, 0, 10, 0, 0, 0, 0, 0, 4, 1])) 1) = []"
proof -
  have none: "\<forall>e\<in>set no_slots_example. stack_indexes e = []"
    by (simp add: no_slots_example_def new_entry_def)
  have dedup: "RemoveDuplicates no_slots_example = no_slots_example"
    by code_simp
  have emit: "Emit spec_layout no_slots_example 5 = Inr [2, 0, 0, 0, 10, 0, 0, 0, 0, 0, 4, 1]"
    by code_simp
  have slots: "tagged_slots (GetEntry spec_layout
     (SafepointTable_at 4096 (memory_of [2, 0, 0, 0, 10, 0, 0, 0, 0, 0, 4, 1])) 1) = []"
    by code_simp
  have ok: "layout_ok spec_layout"
    by code_simp
  have pos: "(0::int) < 5"
    by simp
  from Emit_no_slots [OF pos none, of spec_layout 4096]
  have "TrimEntries (RemoveDuplicates no_slots_example) 5 = (RemoveDuplicates no_slots_example, 0)"
    and "\<forall>bytes m. layout_ok spec_layout \<and> Emit spec_layout no_slots_example 5 = Inr bytes \<and>
           holds m 0 bytes \<longrightarrow>
           table_tagged_slots_bytes spec_layout (SafepointTable_at 4096 m) = 0"
    by blast+
  with ok emit holds_memory_of [of "[2, 0, 0, 0, 10, 0, 0, 0, 0, 0, 4, 1]"] dedup slots
  show ?thesis
    by metis
qed

section \<open>The capacity check of \<^verbatim>\<open>Emit\<close>\<close>

lemma configuration_valid_iff: "configuration_valid L c \<longleftrightarrow> widths_fit L c"
  by (auto simp: configuration_valid_def widths_fit_def is_valid_def field_defs)

lemma Emit_eq_emit_table:
  "Emit L es sz = emit_table L (fst (finalized es sz)) (snd (finalized es sz))"
  by (simp add: Emit_def finalized_def split: prod.splits)

lemma build_bitmap_error: "build_bitmap sz bits idxs = Inl err \<Longrightarrow> err = OutOfBounds"
  by (induction idxs arbitrary: bits) (auto simp: Let_def split: if_splits)

lemma emit_bitmaps_error: "emit_bitmaps sz nbytes es = Inl err \<Longrightarrow> err = OutOfBounds"
  by (induction es) (auto split: sum.splits dest: build_bitmap_error)

lemma emit_table_CheckFailed:
  "emit_table L es sz = Inl CheckFailed \<longleftrightarrow> \<not> configuration_valid L (derive_configuration es sz)"
  by (auto simp: emit_table_def Let_def split: sum.splits dest: emit_bitmaps_error)

lemma slots_in_region_subset:
  "set es' \<subseteq> set es \<Longrightarrow> slots_in_region es sz \<Longrightarrow> slots_in_region es' sz"
  by (auto simp: slots_in_region_def referenced_indexes_def)

lemma slots_in_region_TrimEntries:
  assumes "slots_in_region es sz"
  shows "slots_in_region (fst (TrimEntries es sz)) (snd (TrimEntries es sz))"
proof (cases "referenced_indexes es = []")
  case True
  then show ?thesis
    by (simp add: TrimEntries_eq [OF assms] slots_in_region_def)
next
  case False
  let ?S = "set (referenced_indexes es)"
  have fin: "finite ?S" "?S \<noteq> {}" using False by simp_all
  have le: "Min ?S \<le> idx" if "idx \<in> ?S" for idx using fin that by simp
  show ?thesis
  proof (cases "Min ?S = 0")
    case True
    with False assms show ?thesis by (simp add: TrimEntries_eq [OF assms])
  next
    case nz: False
    have "referenced_indexes (map (shift_indexes (Min ?S)) es) =
        map (\<lambda>idx. idx - Min ?S) (referenced_indexes es)"
      by (simp add: referenced_indexes_def shift_indexes_def map_concat comp_def)
    with False nz assms le show ?thesis
      by (auto simp: TrimEntries_eq [OF assms] slots_in_region_def)
  qed
qed

lemma slots_in_region_finalized:
  "slots_in_region es sz \<Longrightarrow> slots_in_region (fst (finalized es sz)) (snd (finalized es sz))"
  unfolding finalized_def
  by (intro slots_in_region_TrimEntries slots_in_region_subset [OF set_RemoveDuplicates])

lemma bitmap_bytes_cover:
  assumes "0 \<le> idx" and "idx < sz"
  shows "0 \<le> sz - 1 - idx \<and>
         sz - 1 - idx < 8 * int (nat ((sz + kBitsPerByte - 1) sdiv kBitsPerByte))"
proof -
  have "(sz + kBitsPerByte - 1) sdiv kBitsPerByte = (sz + 7) div 8"
    using assms by (simp add: kBitsPerByte_def signed_divide_int_def sgn_if)
  moreover have "sz \<le> 8 * ((sz + 7) div 8)" by linarith
  moreover have "0 \<le> (sz + 7) div 8" using assms by simp
  ultimately show ?thesis using assms by (simp only: int_nat_eq if_True) linarith
qed

lemma emit_table_ok:
  assumes valid: "configuration_valid L (derive_configuration es sz)"
    and slots: "slots_in_region es sz"
  shows "\<exists>bytes. emit_table L es sz = Inr bytes \<and>
     length bytes = 8 + length es * record_size (derive_configuration es sz) +
       length es * nat (tagged_slots_bytes (derive_configuration es sz))"
proof -
  let ?c = "derive_configuration es sz"
  have "\<forall>e\<in>set es. \<forall>idx\<in>set (stack_indexes e).
      0 \<le> sz - 1 - idx \<and> sz - 1 - idx < 8 * int (nat (tagged_slots_bytes ?c))"
    using slots bitmap_bytes_cover [of _ sz]
    by (auto simp: slots_in_region_def referenced_indexes_def derive_configuration_def)
  from emit_bitmaps_ok [OF this] obtain bitmaps where
    bm: "emit_bitmaps sz (tagged_slots_bytes ?c) es = Inr bitmaps" by blast
  from emit_bitmaps_Inr [OF bm] have
    bitmaps: "bitmaps = concat (map (entry_bitmap sz (tagged_slots_bytes ?c)) es)"
    and each: "\<forall>e\<in>set es. length (entry_bitmap sz (tagged_slots_bytes ?c) e) = nat (tagged_slots_bytes ?c)"
    by (auto intro: length_entry_bitmap)
  have rec: "\<forall>e\<in>set es. length (emit_entry ?c e) = record_size ?c"
    by (simp add: length_emit_entry record_size_def)
  have "emit_table L es sz = Inr (dd (word_of_int (int (length es))) @
      dd (entry_configuration L ?c) @ concat (map (emit_entry ?c) es) @ bitmaps)"
    using valid bm by (simp add: emit_table_def Let_def)
  moreover have "length (dd (word_of_int (int (length es))) @
      dd (entry_configuration L ?c) @ concat (map (emit_entry ?c) es) @ bitmaps) =
      8 + length es * record_size ?c + length es * nat (tagged_slots_bytes ?c)"
    by (simp add: length_dd bitmaps length_concat_uniform [OF rec] length_concat_uniform [OF each])
  ultimately show ?thesis by simp
qed

text \<open>
  Claim C9: \<^verbatim>\<open>Emit\<close> stops at its \<^verbatim>\<open>CHECK\<close> (which no build configuration
  compiles out) exactly when one of the four derived widths does not fit the bits
  of its field; when the four widths fit, and the slot indexes lie in the tagged
  region as section 3 of the specification requires, \<^verbatim>\<open>Emit\<close> produces a table: the
  header, one record and one bitmap for each entry.
\<close>

theorem Emit_capacity_check:
  "(Emit L es sz = Inl CheckFailed \<longleftrightarrow> \<not> widths_fit L (Emit_configuration es sz)) \<and>
   (widths_fit L (Emit_configuration es sz) \<and> slots_in_region es sz \<longrightarrow>
    (\<exists>bytes. Emit L es sz = Inr bytes \<and>
       length bytes =
         8 + length (fst (finalized es sz)) * record_size (Emit_configuration es sz) +
         length (fst (finalized es sz)) * nat (tagged_slots_bytes (Emit_configuration es sz))))"
proof -
  have "Emit L es sz = Inl CheckFailed \<longleftrightarrow> \<not> widths_fit L (Emit_configuration es sz)"
    by (simp add: Emit_eq_emit_table emit_table_CheckFailed configuration_valid_iff
        Emit_configuration_def)
  moreover have "\<exists>bytes. Emit L es sz = Inr bytes \<and>
       length bytes =
         8 + length (fst (finalized es sz)) * record_size (Emit_configuration es sz) +
         length (fst (finalized es sz)) * nat (tagged_slots_bytes (Emit_configuration es sz))"
    if "widths_fit L (Emit_configuration es sz)" "slots_in_region es sz"
    using that emit_table_ok [of L "fst (finalized es sz)" "snd (finalized es sz)"]
      slots_in_region_finalized [of es sz]
    by (simp add: Emit_eq_emit_table configuration_valid_iff Emit_configuration_def)
  ultimately show ?thesis by blast
qed

theorem Emit_capacity_check_witness:
  "widths_fit spec_layout (Emit_configuration no_slots_example 5) \<and>
   slots_in_region no_slots_example 5 \<and>
   Emit spec_layout no_slots_example 5 = Inr [2, 0, 0, 0, 10, 0, 0, 0, 0, 0, 4, 1] \<and>
   \<not> widths_fit spec_layout (Emit_configuration huge_frame_example 268435456) \<and>
   tagged_slots_bytes (Emit_configuration huge_frame_example 268435456) = 33554432 \<and>
   Emit spec_layout huge_frame_example 268435456 = Inl CheckFailed"
proof -
  have fit: "widths_fit spec_layout (Emit_configuration no_slots_example 5)"
    by code_simp
  have slots: "slots_in_region no_slots_example 5"
    by code_simp
  from Emit_capacity_check [of spec_layout no_slots_example 5] fit slots
  obtain bytes where "Emit spec_layout no_slots_example 5 = Inr bytes"
    by blast
  moreover have "Emit spec_layout no_slots_example 5 \<noteq> Inl CheckFailed \<longrightarrow>
      Emit spec_layout no_slots_example 5 = Inr [2, 0, 0, 0, 10, 0, 0, 0, 0, 0, 4, 1]"
    by code_simp
  ultimately have emit:
    "Emit spec_layout no_slots_example 5 = Inr [2, 0, 0, 0, 10, 0, 0, 0, 0, 0, 4, 1]"
    by simp
  have huge: "\<not> widths_fit spec_layout (Emit_configuration huge_frame_example 268435456)"
    "tagged_slots_bytes (Emit_configuration huge_frame_example 268435456) = 33554432"
    by code_simp+
  from Emit_capacity_check [of spec_layout huge_frame_example 268435456] huge
  have "Emit spec_layout huge_frame_example 268435456 = Inl CheckFailed"
    by blast
  with fit slots emit huge show ?thesis
    by simp
qed

section \<open>The derived widths\<close>

lemma minimal_width_value_to_bytes:
  "0 \<le> v \<Longrightarrow> v < 2 ^ 32 \<Longrightarrow> minimal_width v (value_to_bytes v)"
  using value_to_bytes_range [of v]
  by (auto simp: minimal_width_def value_to_bytes_fits dest: value_to_bytes_minimal)

lemma value_to_bytes_used:
  assumes "\<forall>e\<in>set es. 0 \<le> register_indexes e \<and> register_indexes e < 2 ^ 32"
  shows "value_to_bytes (used_register_indexes es) =
         value_to_bytes (Max (insert 0 (register_indexes ` set es)))"
proof (rule antisym)
  let ?M = "Max (insert 0 (register_indexes ` set es))"
  let ?n = "nat (value_to_bytes ?M)"
  have nn: "\<forall>e\<in>set es. 0 \<le> register_indexes e" using assms by simp
  have M0: "0 \<le> ?M" by simp
  have "?M < 2 ^ 32" using assms by (subst Max_less_iff) auto
  then have fit: "?M < 256 ^ ?n" by (intro value_to_bytes_fits M0)
  have "?M \<le> used_register_indexes es"
    using used_register_indexes_ge [OF nn] by (subst Max_le_iff) auto
  then show "value_to_bytes ?M \<le> value_to_bytes (used_register_indexes es)"
    by (intro value_to_bytes_mono M0)
  have "\<forall>e\<in>set es. 0 \<le> register_indexes e \<and> register_indexes e < 2 ^ (8 * ?n)"
  proof
    fix e assume e: "e \<in> set es"
    then have "register_indexes e \<le> ?M" by (intro Max_ge) auto
    then have "register_indexes e < 256 ^ ?n" using fit by (rule le_less_trans)
    moreover have "(256::int) ^ ?n = 2 ^ (8 * ?n)"
      by (simp add: power_mult)
    ultimately show "0 \<le> register_indexes e \<and> register_indexes e < 2 ^ (8 * ?n)"
      using nn e by simp
  qed
  from used_register_indexes_less [OF this]
  have "used_register_indexes es < 256 ^ ?n" by (simp add: power_mult)
  then have "value_to_bytes (used_register_indexes es) \<le> int ?n"
    using used_register_indexes_ge [OF nn] by (intro value_to_bytes_minimal) auto
  then show "value_to_bytes (used_register_indexes es) \<le> value_to_bytes ?M"
    using value_to_bytes_range [of ?M] by simp
qed

lemma length_collapse_runs: "length (collapse_runs es) \<le> length es"
  by (induction es rule: collapse_runs.induct) auto

lemma fst_TrimEntries:
  "fst (TrimEntries es sz) = es \<or> (\<exists>m. fst (TrimEntries es sz) = map (shift_indexes m) es)"
  by (auto simp: TrimEntries_def split: option.splits)

lemma int_ranges_map_shift: "int_ranges (map (shift_indexes m) es) = int_ranges es"
  by (simp add: int_ranges_def shift_indexes_def)

lemma int_ranges_finalized: "int_ranges es \<Longrightarrow> int_ranges (fst (finalized es sz))"
proof -
  assume r: "int_ranges es"
  have "int_ranges (RemoveDuplicates es)"
    using r set_collapse_runs [of es] length_collapse_runs [of es]
    unfolding int_ranges_def RemoveDuplicates_collapse
    by (meson le_less_trans of_nat_le_iff subsetD order_le_less_trans)
  then show ?thesis
    using fst_TrimEntries [of "RemoveDuplicates es" sz]
    by (auto simp: finalized_def int_ranges_map_shift)
qed

lemma finalized_size_nonneg:
  assumes "slots_in_region es sz" and "0 \<le> sz"
  shows "0 \<le> snd (finalized es sz)"
proof -
  let ?es = "RemoveDuplicates es"
  have s: "slots_in_region ?es sz"
    by (rule slots_in_region_subset [OF set_RemoveDuplicates assms(1)])
  show ?thesis
  proof (cases "referenced_indexes ?es = []")
    case True
    then show ?thesis by (simp add: finalized_def TrimEntries_eq [OF s])
  next
    case False
    then have "Min (set (referenced_indexes ?es)) \<in> set (referenced_indexes ?es)"
      by (intro Min_in) auto
    with s have "Min (set (referenced_indexes ?es)) < sz"
      by (auto simp: slots_in_region_def)
    with False assms(2) show ?thesis
      by (simp add: finalized_def TrimEntries_eq [OF s])
  qed
qed

lemma tagged_slots_bytes_ceiling:
  assumes "0 \<le> sz"
  shows "sz \<le> 8 * tagged_slots_bytes (derive_configuration es sz) \<and>
         8 * tagged_slots_bytes (derive_configuration es sz) < sz + 8"
proof -
  have "(sz + kBitsPerByte - 1) sdiv kBitsPerByte = (sz + 7) div 8"
    using assms by (simp add: kBitsPerByte_def signed_divide_int_def sgn_if)
  then have "tagged_slots_bytes (derive_configuration es sz) = (sz + 7) div 8"
    by (simp add: derive_configuration_def)
  then show ?thesis by linarith
qed

lemma no_deopt_data:
  assumes "\<forall>e\<in>set es. deopt_index e = - 1"
  shows "\<not> has_deopt_data (derive_configuration es sz)"
proof -
  have "max_deopt_index es = - 1"
    unfolding max_deopt_index_eq_Max using assms
    by (intro Max_eqI) auto
  then show ?thesis by (simp add: derive_configuration_def)
qed

text \<open>
  Claim C7, as the code has it: for the entries of the table (after deduplication
  and trimming), \<^verbatim>\<open>Emit\<close> derives for the maximum register mask, for
  max(pc, trampoline) + 1 and for max(deopt_index) + 1 the minimal number of
  bytes that represents the value, a number from 0 to 4 (0 for the value 0), and
  the bitmap byte count ceil(tagged_slots_size / 8); a maximum register mask of
  300 gives \<open>register_indexes_size = 2\<close>; when no entry carries deopt data,
  \<open>has_deopt_data\<close> is false and a record is the pc and the register mask only;
  the reader decodes these values from the configuration word.
\<close>

theorem Emit_width_derivation:
  assumes fin: "finalized es0 sz0 = (es, sz)"
    and rng: "int_ranges es0"
    and slots: "slots_in_region es0 sz0" and sz0: "0 \<le> sz0"
  shows "minimal_width (Max (insert 0 (register_indexes ` set es)))
           (register_indexes_size (Emit_configuration es0 sz0)) \<and>
         minimal_width (Max (insert (- 1) ((\<lambda>e. max (pc e) (trampoline e)) ` set es)) + 1)
           (pc_size (Emit_configuration es0 sz0)) \<and>
         minimal_width (Max (insert (- 1) (deopt_index ` set es)) + 1)
           (deopt_index_size (Emit_configuration es0 sz0)) \<and>
         register_indexes_size (Emit_configuration es0 sz0) \<le> 4 \<and>
         pc_size (Emit_configuration es0 sz0) \<le> 4 \<and>
         deopt_index_size (Emit_configuration es0 sz0) \<le> 4 \<and>
         sz \<le> 8 * tagged_slots_bytes (Emit_configuration es0 sz0) \<and>
         8 * tagged_slots_bytes (Emit_configuration es0 sz0) < sz + 8 \<and>
         (Max (insert 0 (register_indexes ` set es)) = 300 \<longrightarrow>
            register_indexes_size (Emit_configuration es0 sz0) = 2) \<and>
         ((\<forall>e\<in>set es. deopt_index e = - 1) \<longrightarrow>
            \<not> has_deopt_data (Emit_configuration es0 sz0) \<and>
            (\<forall>e. emit_entry (Emit_configuration es0 sz0) e =
               emit_bytes (pc e) (pc_size (Emit_configuration es0 sz0)) @
               emit_bytes (register_indexes e)
                 (register_indexes_size (Emit_configuration es0 sz0)))) \<and>
         (\<forall>bytes m. layout_ok L \<and> Emit L es0 sz0 = Inr bytes \<and> holds m 0 bytes \<longrightarrow>
            table_has_deopt_data (SafepointTable_at start m) =
              has_deopt_data (Emit_configuration es0 sz0) \<and>
            int (table_register_indexes_size L (SafepointTable_at start m)) =
              register_indexes_size (Emit_configuration es0 sz0) \<and>
            int (table_pc_size L (SafepointTable_at start m)) =
              pc_size (Emit_configuration es0 sz0) \<and>
            int (table_deopt_index_size L (SafepointTable_at start m)) =
              deopt_index_size (Emit_configuration es0 sz0) \<and>
            int (table_tagged_slots_bytes L (SafepointTable_at start m)) =
              tagged_slots_bytes (Emit_configuration es0 sz0))"
proof -
  let ?c = "Emit_configuration es0 sz0"
  have c: "?c = derive_configuration es sz"
    by (simp add: Emit_configuration_def fin)
  have r: "int_ranges es"
    using int_ranges_finalized [OF rng, of sz0] by (simp add: fin)
  have sz: "0 \<le> sz"
    using finalized_size_nonneg [OF slots sz0] by (simp add: fin)
  have regs: "\<forall>e\<in>set es. 0 \<le> register_indexes e \<and> register_indexes e < 2 ^ 32"
    using r by (auto simp: int_ranges_def)
  let ?M = "Max (insert 0 (register_indexes ` set es))"
  have M: "0 \<le> ?M" "?M < 2 ^ 32"
    using regs by (simp, subst Max_less_iff) auto
  have w1: "register_indexes_size ?c = value_to_bytes ?M"
    by (simp add: c derive_configuration_def value_to_bytes_used [OF regs])
  have 1: "minimal_width ?M (register_indexes_size ?c)"
    unfolding w1 by (rule minimal_width_value_to_bytes [OF M])
  have all: "\<forall>e\<in>set es. pc e < 2 ^ 31 - 1 \<and> trampoline e < 2 ^ 31 - 1"
    "\<forall>e\<in>set es. deopt_index e < 2 ^ 31 - 1"
    using r by (auto simp: int_ranges_def)
  have mp: "0 \<le> max_pc es + 1" "max_pc es + 1 < 2 ^ 32"
    using max_pc_ge_m1 [of es] max_pc_less [OF _ all(1)] by auto
  have md: "0 \<le> max_deopt_index es + 1" "max_deopt_index es + 1 < 2 ^ 32"
    using max_deopt_index_ge_m1 [of es] max_deopt_index_less [OF _ all(2)] by auto
  have 2: "minimal_width (Max (insert (- 1) ((\<lambda>e. max (pc e) (trampoline e)) ` set es)) + 1)
      (pc_size ?c)"
    using minimal_width_value_to_bytes [OF mp]
    by (simp add: c derive_configuration_def max_pc_eq_Max)
  have 3: "minimal_width (Max (insert (- 1) (deopt_index ` set es)) + 1) (deopt_index_size ?c)"
    using minimal_width_value_to_bytes [OF md]
    by (simp add: c derive_configuration_def max_deopt_index_eq_Max)
  have 4: "register_indexes_size ?c \<le> 4" "pc_size ?c \<le> 4" "deopt_index_size ?c \<le> 4"
    by (simp_all add: c derive_configuration_def value_to_bytes_range)
  have 5: "sz \<le> 8 * tagged_slots_bytes ?c" "8 * tagged_slots_bytes ?c < sz + 8"
    using tagged_slots_bytes_ceiling [OF sz, of es] by (simp_all add: c)
  have 6: "register_indexes_size ?c = 2" if "?M = 300"
    using that by (simp add: w1 value_to_bytes_def)
  have 7: "\<not> has_deopt_data ?c \<and>
      (\<forall>e. emit_entry ?c e =
         emit_bytes (pc e) (pc_size ?c) @ emit_bytes (register_indexes e) (register_indexes_size ?c))"
    if "\<forall>e\<in>set es. deopt_index e = - 1"
    using no_deopt_data [OF that, of sz] by (simp add: c emit_entry_def)
  have 8: "table_has_deopt_data (SafepointTable_at start m) = has_deopt_data ?c \<and>
      int (table_register_indexes_size L (SafepointTable_at start m)) = register_indexes_size ?c \<and>
      int (table_pc_size L (SafepointTable_at start m)) = pc_size ?c \<and>
      int (table_deopt_index_size L (SafepointTable_at start m)) = deopt_index_size ?c \<and>
      int (table_tagged_slots_bytes L (SafepointTable_at start m)) = tagged_slots_bytes ?c"
    if "layout_ok L" "Emit L es0 sz0 = Inr bytes" "holds m 0 bytes" for bytes m
  proof -
    from that(2) have e: "emit_table L es sz = Inr bytes"
      by (simp add: Emit_eq_emit_table fin)
    have valid: "configuration_valid L (derive_configuration es sz)"
      using emit_table_Inr [OF e] by simp
    then have nn: "0 \<le> register_indexes_size ?c" "0 \<le> pc_size ?c" "0 \<le> deopt_index_size ?c"
      "0 \<le> tagged_slots_bytes ?c"
      by (simp_all add: c configuration_valid_iff widths_fit_def)
    have cfg: "table_entry_configuration (SafepointTable_at start m) =
        entry_configuration L (derive_configuration es sz)"
      by (rule table_entry_configuration_readback [OF e that(3)])
    from table_sizes(1-5) [OF that(1) valid cfg] nn show ?thesis
      by (simp add: c)
  qed
  from 1 2 3 4 5 6 7 8 show ?thesis
    by blast
qed



theorem Emit_width_derivation_witness:
  "finalized mask_300_example 0 = (mask_300_example, 0) \<and>
   Max (insert 0 (register_indexes ` set mask_300_example)) = 300 \<and>
   register_indexes_size (Emit_configuration mask_300_example 0) = 2 \<and>
   \<not> has_deopt_data (Emit_configuration mask_300_example 0) \<and>
   Emit spec_layout mask_300_example 0 = Inr [2, 0, 0, 0, 12, 0, 0, 0, 0, 44, 1, 4, 2, 0] \<and>
   table_register_indexes_size spec_layout
     (SafepointTable_at 4096 (memory_of [2, 0, 0, 0, 12, 0, 0, 0, 0, 44, 1, 4, 2, 0])) = 2 \<and>
   \<not> table_has_deopt_data
     (SafepointTable_at 4096 (memory_of [2, 0, 0, 0, 12, 0, 0, 0, 0, 44, 1, 4, 2, 0]))"
proof -
  let ?t = "SafepointTable_at 4096 (memory_of [2, 0, 0, 0, 12, 0, 0, 0, 0, 44, 1, 4, 2, 0])"
  have fin: "finalized mask_300_example 0 = (mask_300_example, 0)"
    by code_simp
  have rng: "int_ranges mask_300_example"
    by code_simp
  have slots: "slots_in_region mask_300_example 0"
    by code_simp
  have M: "Max (insert 0 (register_indexes ` set mask_300_example)) = 300"
    by (simp add: mask_300_example_def new_entry_def)
  have none: "\<forall>e\<in>set mask_300_example. deopt_index e = - 1"
    by (simp add: mask_300_example_def new_entry_def kNoDeoptIndex_def)
  have emit: "Emit spec_layout mask_300_example 0 =
      Inr [2, 0, 0, 0, 12, 0, 0, 0, 0, 44, 1, 4, 2, 0]"
    by code_simp
  have ok: "layout_ok spec_layout"
    by code_simp
  note inst = Emit_width_derivation [OF fin rng slots order_refl, of spec_layout 4096]
  from inst M have 1: "register_indexes_size (Emit_configuration mask_300_example 0) = 2"
    by blast
  from inst none have 2: "\<not> has_deopt_data (Emit_configuration mask_300_example 0)"
    by blast
  from inst ok emit holds_memory_of [of "[2, 0, 0, 0, 12, 0, 0, 0, 0, 44, 1, 4, 2, 0]"]
  have "table_has_deopt_data ?t = has_deopt_data (Emit_configuration mask_300_example 0) \<and>
      int (table_register_indexes_size spec_layout ?t) =
        register_indexes_size (Emit_configuration mask_300_example 0)"
    by blast
  with 1 2 have "table_register_indexes_size spec_layout ?t = 2" "\<not> table_has_deopt_data ?t"
    by simp_all
  with fin M 1 2 emit show ?thesis
    by simp
qed

text \<open>
  Claim C7 as stated fails for the value 0: a table of one entry with no tagged
  register and no deopt data has the maximum register mask 0 and the maximum
  deopt index \<open>-1\<close>, and \<^verbatim>\<open>Emit\<close> derives and encodes the widths 0, which are not in
  the range 1 to 4.
\<close>

theorem Emit_width_zero_counterexample:
  "Max (insert 0 (register_indexes ` set [new_entry 0])) = 0 \<and>
   value_to_bytes 0 = 0 \<and>
   register_indexes_size (Emit_configuration [new_entry 0] 0) = 0 \<and>
   deopt_index_size (Emit_configuration [new_entry 0] 0) = 0 \<and>
   Emit spec_layout [new_entry 0] 0 = Inr [1, 0, 0, 0, 8, 0, 0, 0, 0] \<and>
   table_register_indexes_size spec_layout
     (SafepointTable_at 4096 (memory_of [1, 0, 0, 0, 8, 0, 0, 0, 0])) = 0 \<and>
   table_deopt_index_size spec_layout
     (SafepointTable_at 4096 (memory_of [1, 0, 0, 0, 8, 0, 0, 0, 0])) = 0"
proof -
  have "Max (insert 0 (register_indexes ` set [new_entry 0])) = 0"
    by (simp add: new_entry_def)
  moreover have "value_to_bytes 0 = 0"
    by (simp add: value_to_bytes_def)
  moreover have "register_indexes_size (Emit_configuration [new_entry 0] 0) = 0"
    "deopt_index_size (Emit_configuration [new_entry 0] 0) = 0"
    "Emit spec_layout [new_entry 0] 0 = Inr [1, 0, 0, 0, 8, 0, 0, 0, 0]"
    "table_register_indexes_size spec_layout
       (SafepointTable_at 4096 (memory_of [1, 0, 0, 0, 8, 0, 0, 0, 0])) = 0"
    "table_deopt_index_size spec_layout
       (SafepointTable_at 4096 (memory_of [1, 0, 0, 0, 8, 0, 0, 0, 0])) = 0"
    by code_simp+
  ultimately show ?thesis
    by simp
qed

section \<open>The serialized layout\<close>

lemma le_bytes_Suc: "le_bytes (Suc n) v = word_of_int v # le_bytes n (v div 256)"
proof -
  have "[0 ..< Suc n] = 0 # map Suc [0 ..< n]"
    by (simp add: upt_conv_Cons map_Suc_upt del: upt_Suc)
  then have "le_bytes (Suc n) v =
      word_of_int v # map (\<lambda>k. word_of_int (v div 256 ^ Suc k)) [0 ..< n]"
    by (simp add: le_bytes_def comp_def del: upt_Suc)
  moreover have "v div 256 ^ Suc k = v div 256 div 256 ^ k" for k
    by (simp add: zdiv_zmult2_eq)
  ultimately show ?thesis by (simp add: le_bytes_def)
qed

lemma emit_bytes_le_bytes_nat: "emit_bytes v (int n) = le_bytes n v"
proof (induction n arbitrary: v)
  case 0
  then show ?case by (simp add: emit_bytes_0 le_bytes_def)
next
  case (Suc n)
  then show ?case by (simp add: emit_bytes_Suc le_bytes_Suc del: of_nat_Suc)
qed

lemma emit_bytes_le_bytes: "emit_bytes v n = le_bytes (nat n) v"
proof (cases "0 \<le> n")
  case True
  then show ?thesis using emit_bytes_le_bytes_nat [of v "nat n"] by simp
next
  case False
  then show ?thesis by (simp add: emit_bytes_nonpos le_bytes_def)
qed

lemma ucast_drop_bit_word_of_int:
  "k \<le> 3 \<Longrightarrow>
   (ucast (drop_bit (8 * k) (word_of_int v :: 32 word)) :: byte) = word_of_int (v div 256 ^ k)"
proof (rule bit_word_eqI)
  fix n assume k: "k \<le> 3" and n: "n < LENGTH(8)"
  have "(256::int) ^ k = 2 ^ (8 * k)" by (simp add: power_mult)
  then have "v div 256 ^ k = drop_bit (8 * k) v" by (simp add: drop_bit_eq_div)
  moreover have "8 * k + n < 32" using k n by simp
  ultimately show "bit (ucast (drop_bit (8 * k) (word_of_int v :: 32 word)) :: byte) n =
      bit (word_of_int (v div 256 ^ k) :: byte) n"
    using n by (simp add: bit_simps)
qed

lemma dd_word_of_int: "dd (word_of_int v) = le_bytes 4 v"
proof -
  have "le_bytes 4 v = [word_of_int (v div 256 ^ 0), word_of_int (v div 256 ^ 1),
      word_of_int (v div 256 ^ 2), word_of_int (v div 256 ^ 3)]"
    by (simp add: le_bytes_def upt_rec numeral_eq_Suc)
  moreover have "dd (word_of_int v) =
      [ucast (drop_bit (8 * 0) (word_of_int v :: 32 word)),
       ucast (drop_bit (8 * 1) (word_of_int v :: 32 word)),
       ucast (drop_bit (8 * 2) (word_of_int v :: 32 word)),
       ucast (drop_bit (8 * 3) (word_of_int v :: 32 word))]"
    by (simp add: dd_def)
  ultimately show ?thesis
    by (simp only: ucast_drop_bit_word_of_int)
qed

lemma dd_le_bytes: "dd w = le_bytes 4 (uint w)"
  using dd_word_of_int [of "uint w"] by simp

lemma emit_entry_spec_record: "emit_entry c e = spec_record c e"
  by (simp add: emit_entry_def spec_record_def emit_bytes_le_bytes)

lemma emit_entry_eq: "emit_entry c = spec_record c"
  by (rule ext) (rule emit_entry_spec_record)

lemma build_bitmap_Inr_range:
  "build_bitmap sz bits idxs = Inr bits' \<Longrightarrow>
   \<forall>idx\<in>set idxs. 0 \<le> sz - 1 - idx \<and> sz - 1 - idx < 8 * int (length bits)"
proof (induction idxs arbitrary: bits)
  case Nil
  then show ?case by simp
next
  case (Cons idx idxs)
  let ?q = "sz - 1 - idx"
  let ?bits1 = "bits[nat (?q div 8) := bits ! nat (?q div 8) OR push_bit (nat (?q mod 8)) 1]"
  from Cons.prems have q: "0 \<le> ?q \<and> ?q < 8 * int (length bits)"
    and b: "build_bitmap sz ?bits1 idxs = Inr bits'"
    by (simp_all only: build_bitmap_Cons split: if_splits) simp_all
  from Cons.IH [OF b] q show ?case by simp
qed

lemma entry_bitmap_bits:
  assumes "build_bitmap sz (replicate (nat nbytes) 0) (stack_indexes e) =
      Inr (entry_bitmap sz nbytes e)"
  shows "length (entry_bitmap sz nbytes e) = nat nbytes"
    and "\<forall>s\<in>set (stack_indexes e). 0 \<le> sz - 1 - s \<and> sz - 1 - s < 8 * int (nat nbytes)"
    and "\<forall>p. 0 \<le> p \<and> p < 8 * int (nat nbytes) \<longrightarrow>
           (bitmap_bit (entry_bitmap sz nbytes e) p \<longleftrightarrow>
            (\<exists>s\<in>set (stack_indexes e). p = sz - 1 - s))"
proof -
  show "length (entry_bitmap sz nbytes e) = nat nbytes"
    by (rule length_entry_bitmap [OF assms])
  have rng: "\<forall>s\<in>set (stack_indexes e). 0 \<le> sz - 1 - s \<and>
      sz - 1 - s < 8 * int (length (replicate (nat nbytes) (0::byte)))"
    by (rule build_bitmap_Inr_range [OF assms])
  then show "\<forall>s\<in>set (stack_indexes e). 0 \<le> sz - 1 - s \<and> sz - 1 - s < 8 * int (nat nbytes)"
    by simp
  have zero: "\<not> bitmap_bit (replicate (nat nbytes) 0) p" if "0 \<le> p" "p < 8 * int (nat nbytes)" for p
  proof -
    have "0 < nbytes" using that by (cases "0 \<le> nbytes") simp_all
    then have "p div 8 < nbytes" using that by simp
    then have "nat (p div 8) < nat nbytes" using that by simp
    then show ?thesis by (simp add: bitmap_bit_def)
  qed
  from build_bitmap_ok [OF rng] assms zero
  show "\<forall>p. 0 \<le> p \<and> p < 8 * int (nat nbytes) \<longrightarrow>
           (bitmap_bit (entry_bitmap sz nbytes e) p \<longleftrightarrow>
            (\<exists>s\<in>set (stack_indexes e). p = sz - 1 - s))"
    by auto
qed

text \<open>
  Claim C8: the emitted bytes are the 8-byte header (entry count and configuration
  word), then for each entry of the table its record: the pc in \<open>pc_size\<close> bytes,
  then only with deopt data the deopt index plus one in \<open>deopt_index_size\<close> bytes
  and the trampoline plus one in \<open>pc_size\<close> bytes, then the register mask in
  \<open>register_indexes_size\<close> bytes, all little-endian and with nothing between
  them; then one bitmap of \<open>tagged_slots_bytes\<close> bytes for each entry, in which, for
  every slot index \<open>s\<close> of the entry, bit \<open>(tagged_slots_size - 1 - s) mod 8\<close> of
  byte \<open>(tagged_slots_size - 1 - s) div 8\<close> is set, and no other bit.
\<close>

theorem Emit_serialized_layout:
  assumes emit: "Emit L es0 sz0 = Inr bytes" and fin: "finalized es0 sz0 = (es, sz)"
  shows "bytes =
           le_bytes 4 (int (length es)) @
           le_bytes 4 (uint (entry_configuration L (Emit_configuration es0 sz0))) @
           concat (map (spec_record (Emit_configuration es0 sz0)) es) @
           concat (map (entry_bitmap sz (tagged_slots_bytes (Emit_configuration es0 sz0))) es) \<and>
         length (le_bytes 4 (int (length es)) @
                 le_bytes 4 (uint (entry_configuration L (Emit_configuration es0 sz0)))) = 8 \<and>
         (\<forall>e\<in>set es.
            length (entry_bitmap sz (tagged_slots_bytes (Emit_configuration es0 sz0)) e) =
              nat (tagged_slots_bytes (Emit_configuration es0 sz0)) \<and>
            (\<forall>s\<in>set (stack_indexes e).
               bit (entry_bitmap sz (tagged_slots_bytes (Emit_configuration es0 sz0)) e !
                      nat ((sz - 1 - s) div 8))
                   (nat ((sz - 1 - s) mod 8))) \<and>
            (\<forall>p. 0 \<le> p \<and> p < 8 * int (nat (tagged_slots_bytes (Emit_configuration es0 sz0))) \<longrightarrow>
               (bitmap_bit (entry_bitmap sz (tagged_slots_bytes (Emit_configuration es0 sz0)) e) p
                \<longleftrightarrow> (\<exists>s\<in>set (stack_indexes e). p = sz - 1 - s))))"
proof -
  let ?c = "Emit_configuration es0 sz0"
  let ?nb = "tagged_slots_bytes ?c"
  have c: "?c = derive_configuration es sz"
    by (simp add: Emit_configuration_def fin)
  from emit have e: "emit_table L es sz = Inr bytes"
    by (simp add: Emit_eq_emit_table fin)
  from emit_table_Inr [OF e] have
    bm: "emit_bitmaps sz ?nb es = Inr (concat (map (entry_bitmap sz ?nb) es))"
    and bytes: "bytes = dd (word_of_int (int (length es))) @ dd (entry_configuration L ?c) @
       concat (map (emit_entry ?c) es) @ concat (map (entry_bitmap sz ?nb) es)"
    by (simp_all add: c)
  have 1: "bytes = le_bytes 4 (int (length es)) @ le_bytes 4 (uint (entry_configuration L ?c)) @
       concat (map (spec_record ?c) es) @ concat (map (entry_bitmap sz ?nb) es)"
    unfolding bytes
    by (simp only: dd_word_of_int dd_le_bytes [of "entry_configuration L ?c"]
        emit_entry_eq)
  have 2: "length (le_bytes 4 (int (length es)) @
      le_bytes 4 (uint (entry_configuration L ?c))) = 8"
    by (simp add: le_bytes_def)
  have 3: "length (entry_bitmap sz ?nb e) = nat ?nb \<and>
      (\<forall>s\<in>set (stack_indexes e).
         bit (entry_bitmap sz ?nb e ! nat ((sz - 1 - s) div 8)) (nat ((sz - 1 - s) mod 8))) \<and>
      (\<forall>p. 0 \<le> p \<and> p < 8 * int (nat ?nb) \<longrightarrow>
         (bitmap_bit (entry_bitmap sz ?nb e) p \<longleftrightarrow> (\<exists>s\<in>set (stack_indexes e). p = sz - 1 - s)))"
    if "e \<in> set es" for e
  proof -
    from emit_bitmaps_Inr [OF bm] that
    have b: "build_bitmap sz (replicate (nat ?nb) 0) (stack_indexes e) = Inr (entry_bitmap sz ?nb e)"
      by simp
    note bits = entry_bitmap_bits [OF b]
    have "bit (entry_bitmap sz ?nb e ! nat ((sz - 1 - s) div 8)) (nat ((sz - 1 - s) mod 8))"
      if "s \<in> set (stack_indexes e)" for s
      using bits(2,3) that unfolding bitmap_bit_def by blast
    with bits(1,3) show ?thesis by blast
  qed
  from 1 2 3 show ?thesis by blast
qed

theorem Emit_serialized_layout_witness:
  "Emit spec_layout end_to_end_example 3 =
     Inr [3, 0, 0, 0, 138, 0, 0, 0, 0, 0, 5, 2, 9, 0, 5, 5, 0] \<and>
   finalized end_to_end_example 3 = (end_to_end_example, 3) \<and>
   le_bytes 4 (int (length end_to_end_example)) @
     le_bytes 4 (uint (entry_configuration spec_layout (Emit_configuration end_to_end_example 3))) @
     concat (map (spec_record (Emit_configuration end_to_end_example 3)) end_to_end_example) @
     concat (map (entry_bitmap 3 (tagged_slots_bytes (Emit_configuration end_to_end_example 3)))
               end_to_end_example) =
     [3, 0, 0, 0, 138, 0, 0, 0, 0, 0, 5, 2, 9, 0, 5, 5, 0] \<and>
   pc_size (Emit_configuration end_to_end_example 3) = 1 \<and>
   tagged_slots_bytes (Emit_configuration end_to_end_example 3) = 1 \<and>
   map (entry_bitmap 3 1) end_to_end_example = [[5], [5], [0]] \<and>
   table_length (SafepointTable_at 4096
     (memory_of [3, 0, 0, 0, 138, 0, 0, 0, 0, 0, 5, 2, 9, 0, 5, 5, 0])) = 3 \<and>
   table_pc_size spec_layout (SafepointTable_at 4096
     (memory_of [3, 0, 0, 0, 138, 0, 0, 0, 0, 0, 5, 2, 9, 0, 5, 5, 0])) = 1 \<and>
   table_tagged_slots_bytes spec_layout (SafepointTable_at 4096
     (memory_of [3, 0, 0, 0, 138, 0, 0, 0, 0, 0, 5, 2, 9, 0, 5, 5, 0])) = 1 \<and>
   map tagged_slots (table_entries spec_layout (SafepointTable_at 4096
     (memory_of [3, 0, 0, 0, 138, 0, 0, 0, 0, 0, 5, 2, 9, 0, 5, 5, 0]))) = [[5], [5], [0]]"
proof -
  let ?t = "SafepointTable_at 4096
     (memory_of [3, 0, 0, 0, 138, 0, 0, 0, 0, 0, 5, 2, 9, 0, 5, 5, 0])"
  have emit: "Emit spec_layout end_to_end_example 3 =
      Inr [3, 0, 0, 0, 138, 0, 0, 0, 0, 0, 5, 2, 9, 0, 5, 5, 0]"
    by code_simp
  have fin: "finalized end_to_end_example 3 = (end_to_end_example, 3)"
    by code_simp
  have sizes: "pc_size (Emit_configuration end_to_end_example 3) = 1"
    "tagged_slots_bytes (Emit_configuration end_to_end_example 3) = 1"
    by code_simp+
  have bitmaps: "map (entry_bitmap 3 1) end_to_end_example = [[5], [5], [0]]"
    by code_simp
  have table: "table_length ?t = 3" "table_pc_size spec_layout ?t = 1"
    "table_tagged_slots_bytes spec_layout ?t = 1"
    "map tagged_slots (table_entries spec_layout ?t) = [[5], [5], [0]]"
    by code_simp+
  from Emit_serialized_layout [OF emit fin]
  have "le_bytes 4 (int (length end_to_end_example)) @
     le_bytes 4 (uint (entry_configuration spec_layout (Emit_configuration end_to_end_example 3))) @
     concat (map (spec_record (Emit_configuration end_to_end_example 3)) end_to_end_example) @
     concat (map (entry_bitmap 3 (tagged_slots_bytes (Emit_configuration end_to_end_example 3)))
               end_to_end_example) =
     [3, 0, 0, 0, 138, 0, 0, 0, 0, 0, 5, 2, 9, 0, 5, 5, 0]"
    by (elim conjE) (rule sym)
  with emit fin sizes bitmaps table show ?thesis
    by (intro conjI)
qed

section \<open>The round trip\<close>

lemma table_entries_readback:
  assumes ok: "layout_ok L"
    and emit: "emit_table L es sz = Inr bytes"
    and mem: "holds m 0 bytes"
    and rng: "int_ranges es"
  shows "table_entries L (SafepointTable_at start m) =
     map (decoded_entry (derive_configuration es sz) sz) es"
proof (rule nth_equalityI)
  have len: "table_length (SafepointTable_at start m) = int (length es)"
    by (rule emit_table_readback(1) [OF ok emit mem rng])
  then show "length (table_entries L (SafepointTable_at start m)) =
      length (map (decoded_entry (derive_configuration es sz) sz) es)"
    by (simp add: length_table_entries)
  fix i assume "i < length (table_entries L (SafepointTable_at start m))"
  then have i: "i < length es" using len by (simp add: length_table_entries)
  then show "table_entries L (SafepointTable_at start m) ! i =
      map (decoded_entry (derive_configuration es sz) sz) es ! i"
    using GetEntry_readback [OF ok emit mem rng i, of start] len
    by (simp add: nth_table_entries decoded_entry_def)
qed

lemma debug_checks_facts:
  "debug_checks bp lp lt es \<Longrightarrow>
   sorted_wrt (<) (map pc es) \<and>
   (\<forall>e\<in>set es. lp < pc e \<and>
      (trampoline e \<noteq> - 1 \<longrightarrow> lt < trampoline e \<and> bp < trampoline e) \<and>
      ((trampoline e = - 1) = (deopt_index e = - 1)))"
proof (induction es arbitrary: lp lt)
  case Nil
  then show ?case by simp
next
  case (Cons e es)
  let ?lt = "if trampoline e \<noteq> kNoTrampolinePC then trampoline e else lt"
  from Cons.prems have here: "lp < pc e"
    "trampoline e \<noteq> - 1 \<longrightarrow> lt < trampoline e \<and> bp < trampoline e"
    "(trampoline e = - 1) = (deopt_index e = - 1)"
    and rest: "debug_checks bp (pc e) ?lt es"
    by (simp_all add: kNoTrampolinePC_def kNoDeoptIndex_def split: if_splits)
  from Cons.IH [OF rest] have
    s: "sorted_wrt (<) (map pc es)"
    and a: "\<forall>x\<in>set es. pc e < pc x \<and>
      (trampoline x \<noteq> - 1 \<longrightarrow> ?lt < trampoline x \<and> bp < trampoline x) \<and>
      ((trampoline x = - 1) = (deopt_index x = - 1))"
    by simp_all
  have "lt \<le> ?lt" using here(2) by (auto simp: kNoTrampolinePC_def)
  with a here have "\<forall>x\<in>set es. lp < pc x \<and>
      (trampoline x \<noteq> - 1 \<longrightarrow> lt < trampoline x \<and> bp < trampoline x) \<and>
      ((trampoline x = - 1) = (deopt_index x = - 1))"
    by fastforce
  with s a here show ?case by simp
qed

lemma Emit_DCHECKs_facts:
  assumes "Emit_DCHECKs es"
  shows "sorted_wrt (<) (map pc es)"
    and "\<forall>e\<in>set es. 0 \<le> pc e"
    and "\<forall>e\<in>set es. \<forall>e'\<in>set es. trampoline e \<noteq> - 1 \<longrightarrow> pc e' < trampoline e"
    and "\<forall>e\<in>set es. (trampoline e = - 1) = (deopt_index e = - 1)"
proof -
  have f: "sorted_wrt (<) (map pc es) \<and>
     (\<forall>e\<in>set es. - 1 < pc e \<and>
        (trampoline e \<noteq> - 1 \<longrightarrow> - 1 < trampoline e \<and> pc (last es) < trampoline e) \<and>
        ((trampoline e = - 1) = (deopt_index e = - 1)))"
  proof (cases es)
    case Nil
    then show ?thesis by simp
  next
    case (Cons a as)
    with assms have "debug_checks (pc (last es)) (- 1) (- 1) es"
      by (simp only: Emit_DCHECKs_def list.case)
    then show ?thesis by (rule debug_checks_facts)
  qed
  then show s: "sorted_wrt (<) (map pc es)" and "\<forall>e\<in>set es. 0 \<le> pc e"
    and "\<forall>e\<in>set es. (trampoline e = - 1) = (deopt_index e = - 1)"
    by auto
  have le_last: "pc e' \<le> pc (last es)" if "e' \<in> set es" for e'
  proof -
    from that obtain i where i: "i < length es" "es ! i = e'"
      by (auto simp: in_set_conv_nth)
    then have ne: "es \<noteq> []" by auto
    show ?thesis
    proof (cases "i = length es - 1")
      case True
      with i ne show ?thesis by (simp add: last_conv_nth)
    next
      case False
      with i have "i < length es - 1" by simp
      moreover have "length es - 1 < length es" using ne by simp
      ultimately have "pc (es ! i) < pc (es ! (length es - 1))"
        using s i by (auto simp: sorted_wrt_iff_nth_less)
      with i ne show ?thesis by (simp add: last_conv_nth)
    qed
  qed
  show "\<forall>e\<in>set es. \<forall>e'\<in>set es. trampoline e \<noteq> - 1 \<longrightarrow> pc e' < trampoline e"
    using f le_last by fastforce
qed

lemma is_identical_refl: "is_identical_except_for_pc e e"
  by (simp add: is_identical_except_for_pc_iff)

lemma collapse_runs_Cons: "\<exists>rest. collapse_runs (a # es) = a # rest \<and> set rest \<subseteq> set es"
proof (induction es arbitrary: a)
  case Nil
  then show ?case by simp
next
  case (Cons b es)
  show ?case
  proof (cases "is_identical_except_for_pc b a")
    case True
    with Cons [of a] show ?thesis by auto
  next
    case False
    with set_collapse_runs [of "b # es"] show ?thesis by simp
  qed
qed

lemma sorted_collapse_runs:
  "sorted_wrt (<) (map pc es) \<Longrightarrow> sorted_wrt (<) (map pc (collapse_runs es))"
proof (induction es rule: collapse_runs.induct)
  case 1
  then show ?case by simp
next
  case (2 e)
  then show ?case by simp
next
  case (3 a b es)
  show ?case
  proof (cases "is_identical_except_for_pc b a")
    case True
    with 3 show ?thesis by simp
  next
    case False
    have "\<forall>x\<in>set (collapse_runs (b # es)). pc a < pc x"
      using set_collapse_runs [of "b # es"] "3.prems" by auto
    with False 3 show ?thesis by simp
  qed
qed

lemma collapse_runs_covers:
  "e \<in> set es \<Longrightarrow> \<exists>e'\<in>set (collapse_runs es). is_identical_except_for_pc e e'"
proof (induction es rule: collapse_runs.induct)
  case 1
  then show ?case by simp
next
  case (2 x)
  then show ?case by (simp add: is_identical_refl)
next
  case (3 a b es)
  obtain rest where rest: "collapse_runs (a # es) = a # rest"
    using collapse_runs_Cons by blast
  show ?case
  proof (cases "is_identical_except_for_pc b a")
    case True
    show ?thesis
    proof (cases "e = b")
      case eb: True
      with True rest show ?thesis by auto
    next
      case False
      with "3.prems" have "e \<in> set (a # es)" by auto
      with "3.IH"(1) [OF True] True show ?thesis by simp
    qed
  next
    case False
    show ?thesis
    proof (cases "e = a")
      case True
      with False show ?thesis by (auto simp: is_identical_refl)
    next
      case ne: False
      with "3.prems" have "e \<in> set (b # es)" by auto
      with "3.IH"(2) [OF False] False show ?thesis by auto
    qed
  qed
qed

lemma set_referenced_collapse_runs:
  "set (referenced_indexes (collapse_runs es)) = set (referenced_indexes es)"
proof
  show "set (referenced_indexes (collapse_runs es)) \<subseteq> set (referenced_indexes es)"
    using set_collapse_runs [of es] by (auto simp: referenced_indexes_def)
  show "set (referenced_indexes es) \<subseteq> set (referenced_indexes (collapse_runs es))"
  proof
    fix s assume "s \<in> set (referenced_indexes es)"
    then obtain e where e: "e \<in> set es" "s \<in> set (stack_indexes e)"
      by (auto simp: referenced_indexes_def)
    from collapse_runs_covers [OF e(1)] obtain e' where
      "e' \<in> set (collapse_runs es)" "stack_indexes e = stack_indexes e'"
      by (auto simp: is_identical_except_for_pc_iff)
    with e(2) show "s \<in> set (referenced_indexes (collapse_runs es))"
      by (auto simp: referenced_indexes_def)
  qed
qed

lemma shift_indexes_0: "shift_indexes 0 e = e"
  by (simp add: shift_indexes_def)

lemma map_shift_indexes_0: "map (shift_indexes 0) es = es"
  by (induction es) (simp_all add: shift_indexes_0)

lemma finalized_eq:
  assumes "slots_in_region es sz"
  shows "finalized es sz =
     (map (shift_indexes (trim_amount es sz)) (RemoveDuplicates es), sz - trim_amount es sz)"
proof -
  let ?es = "RemoveDuplicates es"
  have s: "slots_in_region ?es sz"
    by (rule slots_in_region_subset [OF set_RemoveDuplicates assms])
  have refs: "set (referenced_indexes ?es) = set (referenced_indexes es)"
    by (simp add: RemoveDuplicates_collapse set_referenced_collapse_runs)
  then have nil: "referenced_indexes ?es = [] \<longleftrightarrow> referenced_indexes es = []"
    by (metis set_empty)
  show ?thesis
  proof (cases "referenced_indexes es = []")
    case True
    with nil have "\<forall>e\<in>set ?es. stack_indexes e = []"
      by (simp add: referenced_indexes_Nil_iff)
    then show ?thesis
      using True nil
      by (simp add: finalized_def TrimEntries_eq [OF s] trim_amount_def map_shift_no_slots)
  next
    case False
    then show ?thesis
      using nil refs
      by (simp add: finalized_def TrimEntries_eq [OF s] trim_amount_def map_shift_indexes_0)
  qed
qed

lemma trim_amount_le:
  assumes "slots_in_region es sz" and "s \<in> set (referenced_indexes es)"
  shows "0 \<le> trim_amount es sz \<and> trim_amount es sz \<le> s"
proof -
  let ?S = "set (referenced_indexes es)"
  have ne: "referenced_indexes es \<noteq> []" using assms(2) by auto
  then have "Min ?S \<in> ?S" by (intro Min_in) auto
  then have "0 \<le> Min ?S" using assms(1) by (auto simp: slots_in_region_def)
  moreover have "Min ?S \<le> s" using assms(2) by simp
  ultimately show ?thesis using ne by (simp add: trim_amount_def)
qed

lemma decoded_slots_decoded_entry:
  assumes build: "build_bitmap sz (replicate (nat (tagged_slots_bytes c)) 0) (stack_indexes e) =
      Inr (entry_bitmap sz (tagged_slots_bytes c) e)"
    and slots: "\<forall>s\<in>set (stack_indexes e). 0 \<le> s \<and> s < sz"
    and cover: "sz \<le> 8 * int (nat (tagged_slots_bytes c))"
  shows "set (decoded_slots sz (decoded_entry c sz e)) = set (stack_indexes e)"
proof -
  note bits = entry_bitmap_bits(3) [OF build]
  have "bitmap_bit (entry_bitmap sz (tagged_slots_bytes c) e) (sz - 1 - s) \<longleftrightarrow>
      s \<in> set (stack_indexes e)" if "0 \<le> s" "s \<le> sz - 1" for s
  proof -
    have "0 \<le> sz - 1 - s \<and> sz - 1 - s < 8 * int (nat (tagged_slots_bytes c))"
      using that cover by simp
    with bits have "bitmap_bit (entry_bitmap sz (tagged_slots_bytes c) e) (sz - 1 - s) \<longleftrightarrow>
        (\<exists>s'\<in>set (stack_indexes e). sz - 1 - s = sz - 1 - s')"
      by blast
    then show ?thesis by auto
  qed
  with slots show ?thesis
    by (auto simp: decoded_slots_def decoded_entry_def)
qed

lemma pc_shift_indexes [simp]: "pc (shift_indexes t e) = pc e"
  "trampoline (shift_indexes t e) = trampoline e"
  "deopt_index (shift_indexes t e) = deopt_index e"
  "register_indexes (shift_indexes t e) = register_indexes e"
  "stack_indexes (shift_indexes t e) = map (\<lambda>s. s - t) (stack_indexes e)"
  by (simp_all add: shift_indexes_def)

lemma emitted_lookup:
  assumes ok: "layout_ok L"
    and checks: "Emit_DCHECKs es0"
    and rng: "int_ranges es0"
    and slots: "slots_in_region es0 sz0"
    and emit: "Emit L es0 sz0 = Inr bytes"
    and mem: "holds m 0 bytes"
    and fin: "finalized es0 sz0 = (es, sz)"
    and k: "k < length es"
    and lower: "pc (es ! k) \<le> pc_offset"
    and upper: "k + 1 = length es \<or> pc_offset < pc (es ! (k + 1))"
    and below: "k + 1 = length es \<longrightarrow>
                (\<forall>e\<in>set es0. trampoline e = - 1 \<or> pc_offset < trampoline e)"
  shows "find_entry_at L (SafepointTable_at start m) pc_offset =
           Inr (decoded_entry (Emit_configuration es0 sz0) sz (es ! k))"
    and "table_entries L (SafepointTable_at start m) =
           map (decoded_entry (Emit_configuration es0 sz0) sz) es"
proof -
  let ?c = "Emit_configuration es0 sz0"
  let ?t = "SafepointTable_at start m"
  let ?es1 = "RemoveDuplicates es0"
  have c: "?c = derive_configuration es sz"
    by (simp add: Emit_configuration_def fin)
  from emit have e: "emit_table L es sz = Inr bytes"
    by (simp add: Emit_eq_emit_table fin)
  have es: "es = map (shift_indexes (trim_amount es0 sz0)) ?es1"
    using finalized_eq [OF slots] fin by simp
  have r: "int_ranges es"
    using int_ranges_finalized [OF rng, of sz0] by (simp add: fin)
  show tab: "table_entries L ?t = map (decoded_entry ?c sz) es"
    using table_entries_readback [OF ok e mem r, of start] by (simp add: c)
  note facts = Emit_DCHECKs_facts [OF checks]
  have sub: "set ?es1 \<subseteq> set es0"
    by (rule set_RemoveDuplicates)
  have pcs: "map entry_pc (table_entries L ?t) = map pc ?es1"
    by (simp add: tab es decoded_entry_def comp_def)
  have sorted: "sorted_wrt (<) (map entry_pc (table_entries L ?t))"
    unfolding pcs RemoveDuplicates_collapse by (rule sorted_collapse_runs [OF facts(1)])
  have mem_es: "\<exists>e0\<in>set es0. pc e = pc e0 \<and> trampoline e = trampoline e0" if "e \<in> set es" for e
    using that sub by (auto simp: es)
  have both: "(trampoline_pc d = - 1 \<or> (\<exists>e0\<in>set es0. trampoline_pc d = trampoline e0)) \<and>
      (\<exists>e0\<in>set es0. entry_pc d = pc e0)"
    if "d \<in> set (table_entries L ?t)" for d
  proof -
    from that obtain x where x: "x \<in> set es" "d = decoded_entry ?c sz x"
      by (auto simp: tab)
    from mem_es [OF x(1)] obtain e0 where "e0 \<in> set es0" "pc x = pc e0"
      "trampoline x = trampoline e0" by blast
    with x(2) show ?thesis
      by (cases "has_deopt_data ?c") (auto simp: decoded_entry_def)
  qed
  then have tp: "trampoline_pc d = - 1 \<or> (\<exists>e0\<in>set es0. trampoline_pc d = trampoline e0)"
    and pcd: "\<exists>e0\<in>set es0. entry_pc d = pc e0"
    if "d \<in> set (table_entries L ?t)" for d
    using that by blast+
  have above: "\<forall>d\<in>set (table_entries L ?t). \<forall>d'\<in>set (table_entries L ?t).
      trampoline_pc d \<noteq> - 1 \<longrightarrow> entry_pc d' < trampoline_pc d"
  proof (intro ballI impI)
    fix d d' assume d: "d \<in> set (table_entries L ?t)" "d' \<in> set (table_entries L ?t)"
      and ne: "trampoline_pc d \<noteq> - 1"
    from tp [OF d(1)] ne obtain e0 where e0: "e0 \<in> set es0" "trampoline_pc d = trampoline e0"
      by auto
    from pcd [OF d(2)] obtain e1 where e1: "e1 \<in> set es0" "entry_pc d' = pc e1"
      by auto
    from facts(3) e0 e1 ne show "entry_pc d' < trampoline_pc d" by auto
  qed
  have len: "length (table_entries L ?t) = length es" by (simp add: tab)
  have nth: "table_entries L ?t ! j = decoded_entry ?c sz (es ! j)" if "j < length es" for j
    using that by (simp add: tab)
  have il: "k < length (table_entries L ?t)" using k len by simp
  have lo: "entry_pc (table_entries L ?t ! k) \<le> pc_offset"
    using lower k by (simp add: nth decoded_entry_def)
  have up: "k + 1 = length (table_entries L ?t) \<or>
      pc_offset < entry_pc (table_entries L ?t ! (k + 1))"
  proof (cases "k + 1 = length es")
    case True
    then show ?thesis by (simp add: len)
  next
    case False
    with upper k have "pc_offset < pc (es ! (k + 1))" "k + 1 < length es" by auto
    then show ?thesis by (simp add: nth decoded_entry_def)
  qed
  have bel: "k + 1 = length (table_entries L ?t) \<longrightarrow>
      (\<forall>d\<in>set (table_entries L ?t). trampoline_pc d = - 1 \<or> pc_offset < trampoline_pc d)"
  proof (intro impI ballI)
    fix d assume last: "k + 1 = length (table_entries L ?t)" and d: "d \<in> set (table_entries L ?t)"
    from last below have b: "\<forall>e\<in>set es0. trampoline e = - 1 \<or> pc_offset < trampoline e"
      by (simp add: len)
    from tp [OF d] b show "trampoline_pc d = - 1 \<or> pc_offset < trampoline_pc d" by auto
  qed
  from find_entry_between_pcs [OF sorted above il lo up bel]
  show "find_entry_at L ?t pc_offset = Inr (decoded_entry ?c sz (es ! k))"
    using k by (simp add: nth)
qed

lemma ucast_word_of_int_64_32: "(ucast (word_of_int p :: 64 word) :: 32 word) = word_of_int p"
  by (rule bit_word_eqI) (auto simp: bit_simps)

lemma pc_offset_of_start_plus:
  assumes "0 \<le> p" and "p < 2 ^ 31"
  shows "pc_offset_of (SafepointTable_at start m) (start + word_of_int p) = p"
  using assms
  by (simp add: pc_offset_of_def SafepointTable_at_def ucast_word_of_int_64_32
      sint_word_of_int_32)

lemma bitmap_cover: "sz \<le> 8 * int (nat ((sz + kBitsPerByte - 1) sdiv kBitsPerByte))"
proof (cases "0 \<le> sz")
  case True
  then have "(sz + kBitsPerByte - 1) sdiv kBitsPerByte = (sz + 7) div 8"
    by (simp add: kBitsPerByte_def signed_divide_int_def sgn_if)
  moreover have "sz \<le> 8 * ((sz + 7) div 8)" by linarith
  moreover have "0 \<le> (sz + 7) div 8" using True by simp
  ultimately show ?thesis by (simp only: int_nat_eq if_True)
next
  case False
  then have "sz \<le> 0" by simp
  also have "0 \<le> 8 * int (nat ((sz + kBitsPerByte - 1) sdiv kBitsPerByte))" by simp
  finally show ?thesis .
qed

lemma collapse_runs_nth_0: "collapse_runs (a # es) ! 0 = a"
  using collapse_runs_Cons [of a es] by auto

lemma collapse_runs_run:
  "sorted_wrt (<) (map pc es) \<Longrightarrow> e \<in> set es \<Longrightarrow>
   \<exists>k<length (collapse_runs es).
     is_identical_except_for_pc e (collapse_runs es ! k) \<and>
     pc (collapse_runs es ! k) \<le> pc e \<and>
     (k + 1 = length (collapse_runs es) \<or> pc e < pc (collapse_runs es ! (k + 1)))"
proof (induction es rule: collapse_runs.induct)
  case 1
  then show ?case by simp
next
  case (2 x)
  then show ?case by (simp add: is_identical_refl)
next
  case (3 a b es)
  from "3.prems"(1) have ab: "pc a < pc b" and a_es: "\<forall>x\<in>set es. pc a < pc x"
    and b_es: "\<forall>x\<in>set es. pc b < pc x"
    and s_b: "sorted_wrt (<) (map pc (b # es))" and s_a: "sorted_wrt (<) (map pc (a # es))"
    by auto
  show ?case
  proof (cases "is_identical_except_for_pc b a")
    case True
    obtain rest where rest: "collapse_runs (a # es) = a # rest" "set rest \<subseteq> set es"
      using collapse_runs_Cons by blast
    have cr: "collapse_runs (a # b # es) = collapse_runs (a # es)"
      using True by simp
    show ?thesis
    proof (cases "e = b")
      case eb: True
      have "is_identical_except_for_pc e (collapse_runs (a # es) ! 0)"
        using True eb by (simp add: rest)
      moreover have "pc (collapse_runs (a # es) ! 0) \<le> pc e"
        using ab eb by (simp add: rest)
      moreover have "0 + 1 = length (collapse_runs (a # es)) \<or>
          pc e < pc (collapse_runs (a # es) ! (0 + 1))"
      proof (cases rest)
        case Nil
        then show ?thesis by (simp add: rest)
      next
        case (Cons r rs)
        then have "r \<in> set es" using rest(2) by auto
        with b_es eb Cons show ?thesis by (simp add: rest)
      qed
      moreover have "0 < length (collapse_runs (a # es))" by (simp add: rest)
      ultimately show ?thesis unfolding cr by blast
    next
      case False
      with "3.prems"(2) have "e \<in> set (a # es)" by auto
      from "3.IH"(1) [OF True s_a this] show ?thesis unfolding cr .
    qed
  next
    case False
    have cr: "collapse_runs (a # b # es) = a # collapse_runs (b # es)"
      using False by simp
    obtain rest where rest: "collapse_runs (b # es) = b # rest"
      using collapse_runs_Cons by blast
    show ?thesis
    proof (cases "e = a")
      case True
      have "is_identical_except_for_pc e ((a # collapse_runs (b # es)) ! 0)"
        using True by (simp add: is_identical_refl)
      moreover have "pc e < pc ((a # collapse_runs (b # es)) ! (0 + 1))"
        using True ab by (simp add: rest)
      moreover have "pc ((a # collapse_runs (b # es)) ! 0) \<le> pc e"
        using True by simp
      ultimately show ?thesis unfolding cr
        by (intro exI [of _ 0]) simp
    next
      case ne: False
      with "3.prems"(2) have "e \<in> set (b # es)" by auto
      from "3.IH"(2) [OF False s_b this] obtain k where
        k: "k < length (collapse_runs (b # es))"
        "is_identical_except_for_pc e (collapse_runs (b # es) ! k)"
        "pc (collapse_runs (b # es) ! k) \<le> pc e"
        "k + 1 = length (collapse_runs (b # es)) \<or> pc e < pc (collapse_runs (b # es) ! (k + 1))"
        by blast
      then show ?thesis unfolding cr
        by (intro exI [of _ "Suc k"]) simp
    qed
  qed
qed

lemma Emit_ok:
  assumes fit: "widths_fit L (Emit_configuration es0 sz0)" and slots: "slots_in_region es0 sz0"
  shows "\<exists>bytes. Emit L es0 sz0 = Inr bytes"
  using emit_table_ok [of L "fst (finalized es0 sz0)" "snd (finalized es0 sz0)"]
    slots_in_region_finalized [OF slots] fit
  by (auto simp: Emit_eq_emit_table configuration_valid_iff Emit_configuration_def)

lemma emitted_slots:
  assumes emit: "Emit L es0 sz0 = Inr bytes"
    and slots: "slots_in_region es0 sz0"
    and fin: "finalized es0 sz0 = (es, sz)"
    and x: "x \<in> set es"
  shows "set (decoded_slots sz (decoded_entry (Emit_configuration es0 sz0) sz x)) =
         set (stack_indexes x)"
proof -
  let ?c = "Emit_configuration es0 sz0"
  have c: "?c = derive_configuration es sz"
    by (simp add: Emit_configuration_def fin)
  from emit have e: "emit_table L es sz = Inr bytes"
    by (simp add: Emit_eq_emit_table fin)
  from emit_table_Inr [OF e] have
    bm: "emit_bitmaps sz (tagged_slots_bytes ?c) es =
      Inr (concat (map (entry_bitmap sz (tagged_slots_bytes ?c)) es))"
    by (simp add: c)
  from emit_bitmaps_Inr [OF bm] x have build:
    "build_bitmap sz (replicate (nat (tagged_slots_bytes ?c)) 0) (stack_indexes x) =
      Inr (entry_bitmap sz (tagged_slots_bytes ?c) x)"
    by simp
  have "slots_in_region es sz"
    using slots_in_region_finalized [OF slots] by (simp add: fin)
  with x have in_region: "\<forall>s\<in>set (stack_indexes x). 0 \<le> s \<and> s < sz"
    by (auto simp: slots_in_region_def referenced_indexes_def)
  have cover: "sz \<le> 8 * int (nat (tagged_slots_bytes ?c))"
    using bitmap_cover [of sz] by (simp add: c derive_configuration_def)
  show ?thesis
    by (rule decoded_slots_decoded_entry [OF build in_region cover])
qed

text \<open>
  Claim C1: a builder whose entries pass the checks of the \<^verbatim>\<open>DEBUG\<close> block of
  \<^verbatim>\<open>Emit\<close> (pcs strictly increasing, trampolines and deopt indexes as the builder
  invariants say), whose values are in the \<^verbatim>\<open>int\<close> ranges, whose slot indexes lie in
  the tagged region and whose derived widths fit the configuration word, emits a
  table; read from any memory that holds the emitted bytes, \<^verbatim>\<open>FindEntry\<close> at the pc
  of any entry that was defined returns an entry with the register mask of that
  entry and, in its bitmap, the slot indexes of that entry, each lowered by the
  amount \<^verbatim>\<open>TrimEntries\<close> subtracted (the minimum index referenced, or the whole
  size when no index is referenced).  An entry merged away by
  \<^verbatim>\<open>RemoveDuplicates\<close> is found through the first entry of its run.
\<close>

theorem Emit_round_trip:
  assumes ok: "layout_ok L"
    and checks: "Emit_DCHECKs es0"
    and rng: "int_ranges es0"
    and slots: "slots_in_region es0 sz0"
    and fit: "widths_fit L (Emit_configuration es0 sz0)"
    and e: "e \<in> set es0"
  shows "\<exists>bytes. Emit L es0 sz0 = Inr bytes \<and>
     (\<forall>m start. holds m 0 bytes \<longrightarrow>
        (\<exists>d. FindEntry L (SafepointTable_at start m) (start + word_of_int (pc e)) = Inr d \<and>
           tagged_register_indexes d = register_indexes e \<and>
           set (decoded_slots (sz0 - trim_amount es0 sz0) d) =
             (\<lambda>s. s - trim_amount es0 sz0) ` set (stack_indexes e)))"
proof -
  let ?c = "Emit_configuration es0 sz0"
  let ?t = "trim_amount es0 sz0"
  let ?es1 = "RemoveDuplicates es0"
  let ?es = "map (shift_indexes ?t) ?es1"
  from Emit_ok [OF fit slots] obtain bytes where emit: "Emit L es0 sz0 = Inr bytes"
    by blast
  have fin: "finalized es0 sz0 = (?es, sz0 - ?t)"
    by (rule finalized_eq [OF slots])
  note facts = Emit_DCHECKs_facts [OF checks]
  from collapse_runs_run [OF facts(1) e] obtain k where
    k: "k < length ?es1"
    and same: "is_identical_except_for_pc e (?es1 ! k)"
    and lower: "pc (?es1 ! k) \<le> pc e"
    and upper: "k + 1 = length ?es1 \<or> pc e < pc (?es1 ! (k + 1))"
    unfolding RemoveDuplicates_collapse by blast
  have pc_e: "0 \<le> pc e" "pc e < 2 ^ 31"
    using rng e by (auto simp: int_ranges_def)
  have k': "k < length ?es" using k by simp
  have lower': "pc (?es ! k) \<le> pc e" using lower k by simp
  have upper': "k + 1 = length ?es \<or> pc e < pc (?es ! (k + 1))"
  proof (cases "k + 1 = length ?es1")
    case True
    then show ?thesis by simp
  next
    case False
    with upper k have "pc e < pc (?es1 ! (k + 1))" "k + 1 < length ?es1" by auto
    then show ?thesis by simp
  qed
  have below: "k + 1 = length ?es \<longrightarrow>
      (\<forall>x\<in>set es0. trampoline x = - 1 \<or> pc e < trampoline x)"
    using facts(3) e by blast
  have "\<exists>d. FindEntry L (SafepointTable_at start m) (start + word_of_int (pc e)) = Inr d \<and>
      tagged_register_indexes d = register_indexes e \<and>
      set (decoded_slots (sz0 - ?t) d) = (\<lambda>s. s - ?t) ` set (stack_indexes e)"
    if mem: "holds m 0 bytes" for m start
  proof -
    let ?d = "decoded_entry ?c (sz0 - ?t) (?es ! k)"
    have "find_entry_at L (SafepointTable_at start m) (pc e) = Inr ?d"
      by (rule emitted_lookup(1) [OF ok checks rng slots emit mem fin k' lower' upper' below])
    then have 1: "FindEntry L (SafepointTable_at start m) (start + word_of_int (pc e)) = Inr ?d"
      by (simp add: FindEntry_def pc_offset_of_start_plus [OF pc_e])
    have 2: "tagged_register_indexes ?d = register_indexes e"
      using same k by (simp add: decoded_entry_def is_identical_except_for_pc_iff)
    have "?es ! k \<in> set ?es" using k' by (rule nth_mem)
    from emitted_slots [OF emit slots fin this]
    have "set (decoded_slots (sz0 - ?t) ?d) = set (stack_indexes (?es ! k))" .
    also have "\<dots> = (\<lambda>s. s - ?t) ` set (stack_indexes e)"
      using same k by (simp add: is_identical_except_for_pc_iff)
    finally have 3: "set (decoded_slots (sz0 - ?t) ?d) = (\<lambda>s. s - ?t) ` set (stack_indexes e)" .
    from 1 2 3 show ?thesis by blast
  qed
  with emit show ?thesis by blast
qed

theorem Emit_round_trip_witness:
  "Emit spec_layout round_trip_example 6 = Inr [2, 0, 0, 0, 138, 0, 0, 0, 0, 1, 8, 6, 10, 4] \<and>
   trim_amount round_trip_example 6 = 2 \<and>
   FindEntry spec_layout
     (SafepointTable_at 4096 (memory_of [2, 0, 0, 0, 138, 0, 0, 0, 0, 1, 8, 6, 10, 4]))
     (4096 + 4) =
     Inr \<lparr>entry_pc = 0, deoptimization_index = - 1, tagged_register_indexes = 1,
          tagged_slots = [10], trampoline_pc = - 1\<rparr> \<and>
   decoded_slots 4
     \<lparr>entry_pc = 0, deoptimization_index = - 1, tagged_register_indexes = 1,
      tagged_slots = [10], trampoline_pc = - 1\<rparr> = [0, 2] \<and>
   (\<exists>d. FindEntry spec_layout
          (SafepointTable_at 4096 (memory_of [2, 0, 0, 0, 138, 0, 0, 0, 0, 1, 8, 6, 10, 4]))
          (4096 + 4) = Inr d \<and>
        tagged_register_indexes d = 1 \<and>
        set (decoded_slots 4 d) = {0, 2})"
proof -
  let ?e = "new_entry 4\<lparr>stack_indexes := [2, 4], register_indexes := 1\<rparr>"
  let ?bytes = "[2, 0, 0, 0, 138, 0, 0, 0, 0, 1, 8, 6, 10, 4] :: byte list"
  have ok: "layout_ok spec_layout"
    by code_simp
  have checks: "Emit_DCHECKs round_trip_example"
    by code_simp
  have rng: "int_ranges round_trip_example"
    by code_simp
  have slots: "slots_in_region round_trip_example 6"
    by code_simp
  have fit: "widths_fit spec_layout (Emit_configuration round_trip_example 6)"
    by code_simp
  have e: "?e \<in> set round_trip_example"
    by (simp add: round_trip_example_def)
  have emit: "Emit spec_layout round_trip_example 6 = Inr ?bytes"
    by code_simp
  have trim: "trim_amount round_trip_example 6 = 2"
    by code_simp
  have find: "FindEntry spec_layout (SafepointTable_at 4096 (memory_of ?bytes)) (4096 + 4) =
     Inr \<lparr>entry_pc = 0, deoptimization_index = - 1, tagged_register_indexes = 1,
          tagged_slots = [10], trampoline_pc = - 1\<rparr>"
    by code_simp
  have decoded: "decoded_slots 4
     \<lparr>entry_pc = 0, deoptimization_index = - 1, tagged_register_indexes = 1,
      tagged_slots = [10], trampoline_pc = - 1\<rparr> = [0, 2]"
    by code_simp
  from Emit_round_trip [OF ok checks rng slots fit e] obtain bytes where
    b: "Emit spec_layout round_trip_example 6 = Inr bytes"
    and all: "\<forall>m start. holds m 0 bytes \<longrightarrow>
        (\<exists>d. FindEntry spec_layout (SafepointTable_at start m) (start + word_of_int (pc ?e)) = Inr d \<and>
           tagged_register_indexes d = register_indexes ?e \<and>
           set (decoded_slots (6 - trim_amount round_trip_example 6) d) =
             (\<lambda>s. s - trim_amount round_trip_example 6) ` set (stack_indexes ?e))"
    by blast
  from b emit have "bytes = ?bytes" by simp
  with all holds_memory_of [of ?bytes]
  have "\<exists>d. FindEntry spec_layout (SafepointTable_at 4096 (memory_of ?bytes))
          (4096 + word_of_int (pc ?e)) = Inr d \<and>
        tagged_register_indexes d = register_indexes ?e \<and>
        set (decoded_slots (6 - trim_amount round_trip_example 6) d) =
          (\<lambda>s. s - trim_amount round_trip_example 6) ` set (stack_indexes ?e)"
    by blast
  then have "\<exists>d. FindEntry spec_layout (SafepointTable_at 4096 (memory_of ?bytes))
          (4096 + 4) = Inr d \<and>
        tagged_register_indexes d = 1 \<and> set (decoded_slots 4 d) = {0, 2}"
    by (simp add: trim new_entry_def)
  with emit trim find decoded show ?thesis
    by (intro conjI)
qed

section \<open>Trimming\<close>

text \<open>
  Claim C6: let \<open>m\<close> be the minimum slot index referenced by the entries left by
  \<^verbatim>\<open>RemoveDuplicates\<close> (every index lying in the tagged region, so that
  \<^verbatim>\<open>tagged_slots_size\<close> is not 0).  If \<open>m > 0\<close>, \<^verbatim>\<open>TrimEntries\<close> subtracts \<open>m\<close> from
  \<^verbatim>\<open>tagged_slots_size\<close> and from every slot index of every entry, and the slot
  indexes decoded from the bitmap of the \<open>k\<close>-th entry of the emitted table are
  the original indexes of that entry minus \<open>m\<close>.  If \<open>m = 0\<close>, the entries and the
  size are unchanged and \<^verbatim>\<open>Emit\<close> emits what it emits without \<^verbatim>\<open>TrimEntries\<close>.
\<close>

theorem TrimEntries_trims_minimum:
  assumes slots: "slots_in_region es0 sz0"
    and es1: "es1 = RemoveDuplicates es0"
    and refs: "referenced_indexes es1 \<noteq> []"
    and m: "m = Min (set (referenced_indexes es1))"
  shows "(0 < m \<longrightarrow>
           TrimEntries es1 sz0 = (map (shift_indexes m) es1, sz0 - m) \<and>
           (\<forall>e. stack_indexes (shift_indexes m e) = map (\<lambda>s. s - m) (stack_indexes e)) \<and>
           (\<forall>bytes mem start.
              layout_ok L \<and> int_ranges es0 \<and> Emit L es0 sz0 = Inr bytes \<and> holds mem 0 bytes \<longrightarrow>
              length (table_entries L (SafepointTable_at start mem)) = length es1 \<and>
              (\<forall>k<length es1.
                 set (decoded_slots (sz0 - m) (table_entries L (SafepointTable_at start mem) ! k)) =
                 (\<lambda>s. s - m) ` set (stack_indexes (es1 ! k))))) \<and>
         (m = 0 \<longrightarrow>
           TrimEntries es1 sz0 = (es1, sz0) \<and> Emit L es0 sz0 = emit_table L es1 sz0)"
proof -
  have s1: "slots_in_region es1 sz0"
    unfolding es1 by (rule slots_in_region_subset [OF set_RemoveDuplicates slots])
  have trim: "TrimEntries es1 sz0 =
      (if m = 0 then (es1, sz0) else (map (shift_indexes m) es1, sz0 - m))"
    using TrimEntries_eq [OF s1] refs unfolding m [symmetric] by simp
  have set_refs: "set (referenced_indexes es1) = set (referenced_indexes es0)"
    by (simp add: es1 RemoveDuplicates_collapse set_referenced_collapse_runs)
  with refs have refs0: "referenced_indexes es0 \<noteq> []"
    by (metis set_empty)
  have t: "trim_amount es0 sz0 = m"
    using refs0 set_refs by (simp add: trim_amount_def m)
  have fin: "finalized es0 sz0 = (map (shift_indexes m) es1, sz0 - m)"
    using finalized_eq [OF slots] by (simp add: t es1)
  have zero: "TrimEntries es1 sz0 = (es1, sz0) \<and> Emit L es0 sz0 = emit_table L es1 sz0"
    if "m = 0"
    using that trim by (simp add: Emit_def es1)
  have pos: "TrimEntries es1 sz0 = (map (shift_indexes m) es1, sz0 - m)" if "0 < m"
    using that trim by simp
  have shift: "stack_indexes (shift_indexes m e) = map (\<lambda>s. s - m) (stack_indexes e)" for e
    by simp
  have decode: "length (table_entries L (SafepointTable_at start mem)) = length es1 \<and>
      (\<forall>k<length es1.
         set (decoded_slots (sz0 - m) (table_entries L (SafepointTable_at start mem) ! k)) =
         (\<lambda>s. s - m) ` set (stack_indexes (es1 ! k)))"
    if ok: "layout_ok L" and rng: "int_ranges es0" and emit: "Emit L es0 sz0 = Inr bytes"
      and mem: "holds mem 0 bytes" for bytes mem start
  proof -
    let ?es = "map (shift_indexes m) es1"
    let ?c = "Emit_configuration es0 sz0"
    from emit have e: "emit_table L ?es (sz0 - m) = Inr bytes"
      by (simp add: Emit_eq_emit_table fin)
    have r: "int_ranges ?es"
      using int_ranges_finalized [OF rng, of sz0] by (simp add: fin)
    have c: "?c = derive_configuration ?es (sz0 - m)"
      by (simp add: Emit_configuration_def fin)
    have tab: "table_entries L (SafepointTable_at start mem) =
        map (decoded_entry ?c (sz0 - m)) ?es"
      using table_entries_readback [OF ok e mem r, of start] by (simp add: c)
    have "set (decoded_slots (sz0 - m) (table_entries L (SafepointTable_at start mem) ! k)) =
        (\<lambda>s. s - m) ` set (stack_indexes (es1 ! k))" if k: "k < length es1" for k
    proof -
      have "?es ! k \<in> set ?es" using k by (intro nth_mem) simp
      from emitted_slots [OF emit slots fin this] k show ?thesis
        by (simp add: tab)
    qed
    then show ?thesis by (simp add: tab)
  qed
  from zero pos shift decode show ?thesis by blast
qed

theorem TrimEntries_trims_minimum_witness:
  "RemoveDuplicates round_trip_example =
     [new_entry 0\<lparr>stack_indexes := [2, 4], register_indexes := 1\<rparr>,
      new_entry 8\<lparr>stack_indexes := [3], register_indexes := 6\<rparr>] \<and>
   Min (set (referenced_indexes (RemoveDuplicates round_trip_example))) = 2 \<and>
   TrimEntries (RemoveDuplicates round_trip_example) 6 =
     ([new_entry 0\<lparr>stack_indexes := [0, 2], register_indexes := 1\<rparr>,
       new_entry 8\<lparr>stack_indexes := [1], register_indexes := 6\<rparr>], 4) \<and>
   Emit spec_layout round_trip_example 6 = Inr [2, 0, 0, 0, 138, 0, 0, 0, 0, 1, 8, 6, 10, 4] \<and>
   map (decoded_slots 4)
     (table_entries spec_layout
        (SafepointTable_at 4096 (memory_of [2, 0, 0, 0, 138, 0, 0, 0, 0, 1, 8, 6, 10, 4]))) =
     [[0, 2], [1]] \<and>
   Min (set (referenced_indexes (RemoveDuplicates end_to_end_example))) = 0 \<and>
   TrimEntries (RemoveDuplicates end_to_end_example) 3 = (RemoveDuplicates end_to_end_example, 3) \<and>
   Emit spec_layout end_to_end_example 3 =
     emit_table spec_layout (RemoveDuplicates end_to_end_example) 3"
proof -
  let ?es1 = "[new_entry 0\<lparr>stack_indexes := [2, 4], register_indexes := 1\<rparr>,
      new_entry 8\<lparr>stack_indexes := [3], register_indexes := 6\<rparr>]"
  have dedup: "RemoveDuplicates round_trip_example = ?es1"
    by code_simp
  have min2: "Min (set (referenced_indexes (RemoveDuplicates round_trip_example))) = 2"
    by code_simp
  have slots: "slots_in_region round_trip_example 6"
    by code_simp
  have refs: "referenced_indexes (RemoveDuplicates round_trip_example) \<noteq> []"
    by code_simp
  have emit: "Emit spec_layout round_trip_example 6 =
      Inr [2, 0, 0, 0, 138, 0, 0, 0, 0, 1, 8, 6, 10, 4]"
    by code_simp
  have decoded: "map (decoded_slots 4)
     (table_entries spec_layout
        (SafepointTable_at 4096 (memory_of [2, 0, 0, 0, 138, 0, 0, 0, 0, 1, 8, 6, 10, 4]))) =
     [[0, 2], [1]]"
    by code_simp
  from TrimEntries_trims_minimum [OF slots refl refs min2 [symmetric], of spec_layout]
  have "TrimEntries (RemoveDuplicates round_trip_example) 6 =
      (map (shift_indexes 2) (RemoveDuplicates round_trip_example), 6 - 2)"
    by simp
  then have trim: "TrimEntries (RemoveDuplicates round_trip_example) 6 =
     ([new_entry 0\<lparr>stack_indexes := [0, 2], register_indexes := 1\<rparr>,
       new_entry 8\<lparr>stack_indexes := [1], register_indexes := 6\<rparr>], 4)"
    by (simp add: dedup shift_indexes_def new_entry_def)
  have min0: "Min (set (referenced_indexes (RemoveDuplicates end_to_end_example))) = 0"
    by code_simp
  have slots0: "slots_in_region end_to_end_example 3"
    by code_simp
  have refs0: "referenced_indexes (RemoveDuplicates end_to_end_example) \<noteq> []"
    by code_simp
  from TrimEntries_trims_minimum [OF slots0 refl refs0 min0 [symmetric], of spec_layout]
  have "TrimEntries (RemoveDuplicates end_to_end_example) 3 =
      (RemoveDuplicates end_to_end_example, 3) \<and>
    Emit spec_layout end_to_end_example 3 =
      emit_table spec_layout (RemoveDuplicates end_to_end_example) 3"
    by simp
  with dedup min2 trim emit decoded min0 show ?thesis
    by (intro conjI) simp_all
qed

section \<open>Deduplication and lookup\<close>

lemma collapse_runs_skip:
  "\<forall>x\<in>set r. is_identical_except_for_pc x a \<Longrightarrow>
   collapse_runs (a # r @ rest) = collapse_runs (a # rest)"
  by (induction r) simp_all

lemma collapse_runs_concat:
  assumes "\<forall>r\<in>set runs. r \<noteq> [] \<and> (\<forall>x\<in>set r. \<forall>y\<in>set r. is_identical_except_for_pc x y)"
    and "\<forall>k. k + 1 < length runs \<longrightarrow>
           \<not> is_identical_except_for_pc (hd (runs ! (k + 1))) (last (runs ! k))"
  shows "collapse_runs (concat runs) = map hd runs"
  using assms
proof (induction runs)
  case Nil
  then show ?case by simp
next
  case (Cons r runs)
  note prems = Cons.prems and hyp = Cons.IH
  from prems(1) obtain a r' where r: "r = a # r'"
    by (cases r) auto
  have same: "\<forall>x\<in>set r'. is_identical_except_for_pc x a"
    using prems(1) r by auto
  have skip: "collapse_runs (concat (r # runs)) = collapse_runs (a # concat runs)"
    using collapse_runs_skip [OF same, of "concat runs"] by (simp add: r)
  have IH: "collapse_runs (concat runs) = map hd runs"
  proof (rule hyp)
    show "\<forall>r\<in>set runs. r \<noteq> [] \<and> (\<forall>x\<in>set r. \<forall>y\<in>set r. is_identical_except_for_pc x y)"
      using prems(1) by simp
    show "\<forall>k. k + 1 < length runs \<longrightarrow>
        \<not> is_identical_except_for_pc (hd (runs ! (k + 1))) (last (runs ! k))"
    proof (intro allI impI)
      fix k assume "k + 1 < length runs"
      then show "\<not> is_identical_except_for_pc (hd (runs ! (k + 1))) (last (runs ! k))"
        using prems(2) [rule_format, of "Suc k"] by simp
    qed
  qed
  show ?case
  proof (cases runs)
    case Nil
    with skip show ?thesis by (simp add: r)
  next
    case next_run: (Cons r2 runs')
    with prems(1) obtain b r2' where r2: "r2 = b # r2'"
      by (cases r2) auto
    have "\<not> is_identical_except_for_pc (hd ((r # runs) ! (0 + 1))) (last ((r # runs) ! 0))"
      using next_run by (intro prems(2) [rule_format]) simp
    then have nb: "\<not> is_identical_except_for_pc b (last r)"
      by (simp add: next_run r2)
    have "last r \<in> set r" using r by simp
    then have "is_identical_except_for_pc (last r) a"
      using prems(1) r by auto
    with nb have "\<not> is_identical_except_for_pc b a"
      by (auto simp: is_identical_except_for_pc_iff)
    then have "collapse_runs (a # concat runs) = a # collapse_runs (concat runs)"
      by (simp add: next_run r2)
    with skip IH show ?thesis by (simp add: r)
  qed
qed

text \<open>
  Claim C4: when the entries of the builder are a sequence of runs, each run made of
  mutually mergeable consecutive entries and no run mergeable with the next one
  (the runs are maximal), \<^verbatim>\<open>RemoveDuplicates\<close> leaves the first member of each run.
  In the table emitted for such a builder (one that passes the checks of the
  \<^verbatim>\<open>DEBUG\<close> block) the entries have the pcs of the first members, and
  \<^verbatim>\<open>FindEntry\<close> at any pc offset from the pc of the first member of run \<open>k\<close> up to
  the pc of the first member of the next run returns entry \<open>k\<close> (behind the last
  run: at any offset below the trampolines).
\<close>

theorem Emit_deduplicates_runs:
  assumes runs: "\<forall>r\<in>set runs. r \<noteq> [] \<and>
                   (\<forall>x\<in>set r. \<forall>y\<in>set r. is_identical_except_for_pc x y)"
    and maximal: "\<forall>k. k + 1 < length runs \<longrightarrow>
                   \<not> is_identical_except_for_pc (hd (runs ! (k + 1))) (last (runs ! k))"
  shows "RemoveDuplicates (concat runs) = map hd runs \<and>
     (\<forall>bytes m start.
        layout_ok L \<and> Emit_DCHECKs (concat runs) \<and> int_ranges (concat runs) \<and>
        slots_in_region (concat runs) sz0 \<and> Emit L (concat runs) sz0 = Inr bytes \<and>
        holds m 0 bytes \<longrightarrow>
        map entry_pc (table_entries L (SafepointTable_at start m)) = map (\<lambda>r. pc (hd r)) runs \<and>
        (\<forall>k address.
           k < length runs \<and>
           pc (hd (runs ! k)) \<le> pc_offset_of (SafepointTable_at start m) address \<and>
           (k + 1 = length runs \<or>
            pc_offset_of (SafepointTable_at start m) address < pc (hd (runs ! (k + 1)))) \<and>
           (k + 1 = length runs \<longrightarrow>
            (\<forall>e\<in>set (concat runs).
               trampoline e = - 1 \<or>
               pc_offset_of (SafepointTable_at start m) address < trampoline e)) \<longrightarrow>
           FindEntry L (SafepointTable_at start m) address =
             Inr (table_entries L (SafepointTable_at start m) ! k)))"
proof -
  let ?input = "concat runs"
  have dedup: "RemoveDuplicates ?input = map hd runs"
    unfolding RemoveDuplicates_collapse by (rule collapse_runs_concat [OF runs maximal])
  have lookup: "map entry_pc (table_entries L (SafepointTable_at start m)) =
        map (\<lambda>r. pc (hd r)) runs \<and>
      (\<forall>k address.
         k < length runs \<and>
         pc (hd (runs ! k)) \<le> pc_offset_of (SafepointTable_at start m) address \<and>
         (k + 1 = length runs \<or>
          pc_offset_of (SafepointTable_at start m) address < pc (hd (runs ! (k + 1)))) \<and>
         (k + 1 = length runs \<longrightarrow>
          (\<forall>e\<in>set ?input.
             trampoline e = - 1 \<or>
             pc_offset_of (SafepointTable_at start m) address < trampoline e)) \<longrightarrow>
         FindEntry L (SafepointTable_at start m) address =
           Inr (table_entries L (SafepointTable_at start m) ! k))"
    if ok: "layout_ok L" and checks: "Emit_DCHECKs ?input" and rng: "int_ranges ?input"
      and slots: "slots_in_region ?input sz0" and emit: "Emit L ?input sz0 = Inr bytes"
      and mem: "holds m 0 bytes" for bytes m start
  proof -
    let ?t = "SafepointTable_at start m"
    let ?a = "trim_amount ?input sz0"
    let ?es = "map (shift_indexes ?a) (map hd runs)"
    let ?c = "Emit_configuration ?input sz0"
    have fin: "finalized ?input sz0 = (?es, sz0 - ?a)"
      using finalized_eq [OF slots] by (simp add: dedup)
    from emit have e: "emit_table L ?es (sz0 - ?a) = Inr bytes"
      by (simp add: Emit_eq_emit_table fin)
    have r: "int_ranges ?es"
      using int_ranges_finalized [OF rng, of sz0] by (simp add: fin)
    have c: "?c = derive_configuration ?es (sz0 - ?a)"
      by (simp add: Emit_configuration_def fin)
    have tab: "table_entries L ?t = map (decoded_entry ?c (sz0 - ?a)) ?es"
      using table_entries_readback [OF ok e mem r, of start] by (simp add: c)
    have pcs: "map entry_pc (table_entries L ?t) = map (\<lambda>r. pc (hd r)) runs"
      by (simp add: tab decoded_entry_def comp_def)
    have "FindEntry L ?t address = Inr (table_entries L ?t ! k)"
      if k: "k < length runs"
        and lower: "pc (hd (runs ! k)) \<le> pc_offset_of ?t address"
        and upper: "k + 1 = length runs \<or> pc_offset_of ?t address < pc (hd (runs ! (k + 1)))"
        and below: "k + 1 = length runs \<longrightarrow>
          (\<forall>e\<in>set ?input. trampoline e = - 1 \<or> pc_offset_of ?t address < trampoline e)"
      for k address
    proof -
      have k': "k < length ?es" using k by simp
      have lower': "pc (?es ! k) \<le> pc_offset_of ?t address" using lower k by simp
      have upper': "k + 1 = length ?es \<or> pc_offset_of ?t address < pc (?es ! (k + 1))"
      proof (cases "k + 1 = length runs")
        case True
        then show ?thesis by simp
      next
        case False
        with upper k have "pc_offset_of ?t address < pc (hd (runs ! (k + 1)))"
          "k + 1 < length runs" by auto
        then show ?thesis by simp
      qed
      have below': "k + 1 = length ?es \<longrightarrow>
          (\<forall>e\<in>set ?input. trampoline e = - 1 \<or> pc_offset_of ?t address < trampoline e)"
        using below by simp
      from emitted_lookup(1) [OF ok checks rng slots emit mem fin k' lower' upper' below']
      show ?thesis using k by (simp add: FindEntry_def tab)
    qed
    with pcs show ?thesis by blast
  qed
  from dedup lookup show ?thesis by blast
qed

theorem Emit_deduplicates_runs_witness:
  "RemoveDuplicates dedup_example = [new_entry 0\<lparr>stack_indexes := [0, 1], register_indexes := 2\<rparr>] \<and>
   Emit spec_layout dedup_example 2 = Inr [1, 0, 0, 0, 138, 0, 0, 0, 0, 2, 3] \<and>
   table_entries spec_layout dedup_example_table =
     [\<lparr>entry_pc = 0, deoptimization_index = - 1, tagged_register_indexes = 2,
       tagged_slots = [3], trampoline_pc = - 1\<rparr>] \<and>
   FindEntry spec_layout dedup_example_table (4096 + 0) =
     Inr \<lparr>entry_pc = 0, deoptimization_index = - 1, tagged_register_indexes = 2,
          tagged_slots = [3], trampoline_pc = - 1\<rparr> \<and>
   FindEntry spec_layout dedup_example_table (4096 + 4) =
     Inr \<lparr>entry_pc = 0, deoptimization_index = - 1, tagged_register_indexes = 2,
          tagged_slots = [3], trampoline_pc = - 1\<rparr> \<and>
   FindEntry spec_layout dedup_example_table (4096 + 8) =
     Inr \<lparr>entry_pc = 0, deoptimization_index = - 1, tagged_register_indexes = 2,
          tagged_slots = [3], trampoline_pc = - 1\<rparr> \<and>
   FindEntry spec_layout dedup_example_table (4096 + 1000) =
     Inr \<lparr>entry_pc = 0, deoptimization_index = - 1, tagged_register_indexes = 2,
          tagged_slots = [3], trampoline_pc = - 1\<rparr>"
proof -
  let ?t = dedup_example_table
  let ?E = "\<lparr>entry_pc = 0, deoptimization_index = - 1, tagged_register_indexes = 2,
       tagged_slots = [3], trampoline_pc = - 1\<rparr>"
  have runs: "\<forall>r\<in>set [dedup_example]. r \<noteq> [] \<and>
      (\<forall>x\<in>set r. \<forall>y\<in>set r. is_identical_except_for_pc x y)"
    by (simp add: dedup_example_def new_entry_def is_identical_except_for_pc_iff)
  have maximal: "\<forall>k. k + 1 < length [dedup_example] \<longrightarrow>
      \<not> is_identical_except_for_pc (hd ([dedup_example] ! (k + 1))) (last ([dedup_example] ! k))"
    by simp
  note inst = Emit_deduplicates_runs [OF runs maximal, of spec_layout 2]
  have ok: "layout_ok spec_layout"
    by code_simp
  have checks: "Emit_DCHECKs (concat [dedup_example])"
    by code_simp
  have rng: "int_ranges (concat [dedup_example])"
    by code_simp
  have slots: "slots_in_region (concat [dedup_example]) 2"
    by code_simp
  have emit: "Emit spec_layout dedup_example 2 = Inr [1, 0, 0, 0, 138, 0, 0, 0, 0, 2, 3]"
    by code_simp
  have mem: "holds (memory_of [1, 0, 0, 0, 138, 0, 0, 0, 0, 2, 3]) 0
      [1, 0, 0, 0, 138, 0, 0, 0, 0, 2, 3]"
    by (rule holds_memory_of)
  have tab: "table_entries spec_layout ?t = [?E]"
    by code_simp
  have offs: "pc_offset_of ?t (4096 + 0) = 0" "pc_offset_of ?t (4096 + 4) = 4"
    "pc_offset_of ?t (4096 + 8) = 8" "pc_offset_of ?t (4096 + 1000) = 1000"
    by code_simp+
  have none: "\<forall>e\<in>set (concat [dedup_example]). trampoline e = - 1"
    by (simp add: dedup_example_def new_entry_def kNoTrampolinePC_def)
  have pc0: "pc (hd ([dedup_example] ! 0)) = 0"
    by (simp add: dedup_example_def new_entry_def)
  from inst have dedup: "RemoveDuplicates dedup_example = map hd [dedup_example]"
    by simp
  then have 1: "RemoveDuplicates dedup_example =
      [new_entry 0\<lparr>stack_indexes := [0, 1], register_indexes := 2\<rparr>]"
    by (simp add: dedup_example_def)
  from inst ok checks rng slots emit mem
  have find: "\<forall>k address.
       k < length [dedup_example] \<and>
       pc (hd ([dedup_example] ! k)) \<le> pc_offset_of ?t address \<and>
       (k + 1 = length [dedup_example] \<or>
        pc_offset_of ?t address < pc (hd ([dedup_example] ! (k + 1)))) \<and>
       (k + 1 = length [dedup_example] \<longrightarrow>
        (\<forall>e\<in>set (concat [dedup_example]).
           trampoline e = - 1 \<or> pc_offset_of ?t address < trampoline e)) \<longrightarrow>
       FindEntry spec_layout ?t address = Inr (table_entries spec_layout ?t ! k)"
    unfolding dedup_example_table_def by simp
  have "FindEntry spec_layout ?t address = Inr ?E" if "0 \<le> pc_offset_of ?t address" for address
    using find [rule_format, of 0 address] that none pc0 by (simp add: tab)
  with offs have "FindEntry spec_layout ?t (4096 + 0) = Inr ?E"
    "FindEntry spec_layout ?t (4096 + 4) = Inr ?E"
    "FindEntry spec_layout ?t (4096 + 8) = Inr ?E"
    "FindEntry spec_layout ?t (4096 + 1000) = Inr ?E"
    by simp_all
  with 1 emit tab show ?thesis
    by (intro conjI)
qed

end
